theory Spec2Isabelle
  imports Complex_Main "HOL-Library.Multiset"
begin

section \<open>Python values\<close>

text \<open>
  A Python \<^verbatim>\<open>str\<close> is a \<open>string\<close>: one \<open>char\<close> of the model is one code point of the
  text, taken from the first 256, and \<open>length\<close> is Python's \<^verbatim>\<open>len\<close>. The exceptions that
  the modelled code can let escape:
\<close>

datatype py_exception = TimeoutExpiredError | KeyError | OSError | IntegrityError

abbreviation (input) NL :: char where
  "NL \<equiv> CHR 0x0A"

text \<open>\<^verbatim>\<open>str.isspace\<close> on one character, for the code points below 256: the ASCII
  whitespace and separators, NEL and the no-break space.\<close>

definition isspace :: "char \<Rightarrow> bool" where
  "isspace c =
     (let n = (of_char c :: nat)
      in (9 \<le> n \<and> n \<le> 13) \<or> (28 \<le> n \<and> n \<le> 32) \<or> n = 133 \<or> n = 160)"

text \<open>\<^verbatim>\<open>s.strip()\<close>\<close>

definition strip :: "string \<Rightarrow> string" where
  "strip s = rev (dropWhile isspace (rev (dropWhile isspace s)))"

text \<open>\<^verbatim>\<open>s.split(sep)\<close> for a separator that is not empty (Python raises on an empty one,
  and the code never passes one): the pieces between the occurrences of \<open>sep\<close>, found from
  the left without overlap. \<open>acc\<close> is the piece being read.\<close>

function split_from :: "string \<Rightarrow> string \<Rightarrow> string \<Rightarrow> string list" where
  "split_from sep acc [] = [acc]"
| "split_from sep acc (c # cs) =
     (if sep \<noteq> [] \<and> take (length sep) (c # cs) = sep
      then acc # split_from sep [] (drop (length sep) (c # cs))
      else split_from sep (acc @ [c]) cs)"
  by pat_completeness auto
termination
  by (relation "measure (\<lambda>(sep, acc, s). length s)") auto

definition split :: "string \<Rightarrow> string \<Rightarrow> string list" where
  "split sep s = split_from sep [] s"

text \<open>\<^verbatim>\<open>s.replace(old, new)\<close> for an \<open>old\<close> that is not empty: every occurrence, found
  from the left without overlap, is replaced.\<close>

function replace :: "string \<Rightarrow> string \<Rightarrow> string \<Rightarrow> string" where
  "replace old new [] = []"
| "replace old new (c # cs) =
     (if old \<noteq> [] \<and> take (length old) (c # cs) = old
      then new @ replace old new (drop (length old) (c # cs))
      else c # replace old new cs)"
  by pat_completeness auto
termination
  by (relation "measure (\<lambda>(old, new, s). length s)") auto

text \<open>\<^verbatim>\<open>sep.join(xs)\<close>\<close>

fun join :: "string \<Rightarrow> string list \<Rightarrow> string" where
  "join sep [] = []"
| "join sep [x] = x"
| "join sep (x # y # ys) = x @ sep @ join sep (y # ys)"

text \<open>\<^verbatim>\<open>s.rfind(c)\<close> for one character: the last index at which it occurs, or -1.\<close>

definition rfind :: "char \<Rightarrow> string \<Rightarrow> int" where
  "rfind c s =
     (case filter (\<lambda>i. s ! i = c) (rev [0..<length s]) of [] \<Rightarrow> - 1 | i # _ \<Rightarrow> int i)"

section \<open>The chunker (chunk\_text of tools/import-knowledge.py)\<close>

text \<open>
  The inner loop over the sentences of a long paragraph, with the buffer \<^verbatim>\<open>sent_buf\<close>
  and the list of chunks so far (the code's \<^verbatim>\<open>chunks\<close>).
\<close>

fun pack_sentences :: "string list \<Rightarrow> string \<Rightarrow> string list \<Rightarrow> string list \<times> string" where
  "pack_sentences [] sent_buf acc_chunks = (acc_chunks, sent_buf)"
| "pack_sentences (sent # sentences) sent_buf acc_chunks =
     (if length sent_buf + length sent > 600
      then pack_sentences sentences sent
             (if sent_buf \<noteq> [] then acc_chunks @ [sent_buf] else acc_chunks)
      else pack_sentences sentences
             (sent_buf @ (if sent_buf \<noteq> [] then '' '' else []) @ sent) acc_chunks)"

text \<open>\<^verbatim>\<open>para.replace(". ", ".\n").split("\n")\<close>\<close>

definition sentences_of :: "string \<Rightarrow> string list" where
  "sentences_of para = split [NL] (replace ''. '' [CHR ''.'', NL] para)"

text \<open>The loop over the paragraphs, with \<^verbatim>\<open>buffer\<close> and the chunks so far.\<close>

fun chunk_paragraphs :: "string list \<Rightarrow> string \<Rightarrow> string list \<Rightarrow> string list \<times> string" where
  "chunk_paragraphs [] buffer acc_chunks = (acc_chunks, buffer)"
| "chunk_paragraphs (para # paragraphs) buffer acc_chunks =
     (if length para > 800 then
        (let chunks1 = (if buffer \<noteq> [] then acc_chunks @ [buffer] else acc_chunks);
             (chunks2, sent_buf) = pack_sentences (sentences_of para) [] chunks1
         in chunk_paragraphs paragraphs []
              (if sent_buf \<noteq> [] then chunks2 @ [sent_buf] else chunks2))
      else if length buffer + length para < 100 then
        chunk_paragraphs paragraphs
          (buffer @ (if buffer \<noteq> [] then [NL, NL] else []) @ para) acc_chunks
      else
        chunk_paragraphs paragraphs para
          (if buffer \<noteq> [] then acc_chunks @ [buffer] else acc_chunks))"

text \<open>\<^verbatim>\<open>[p.strip() for p in text.split("\n\n") if p.strip()]\<close>\<close>

definition paragraphs_of :: "string \<Rightarrow> string list" where
  "paragraphs_of t = filter (\<lambda>p. p \<noteq> []) (map strip (split [NL, NL] t))"

text \<open>The whole function: the loop, then the flush of what is left in \<^verbatim>\<open>buffer\<close>.\<close>

definition chunk_text :: "string \<Rightarrow> string list" where
  "chunk_text t =
     (let (acc_chunks, buffer) = chunk_paragraphs (paragraphs_of t) [] []
      in if buffer \<noteq> [] then acc_chunks @ [buffer] else acc_chunks)"

section \<open>The persisted store\<close>

text \<open>
  The schema of \<^verbatim>\<open>init_db\<close> (tools/import-knowledge.py): a table of documents, a table of
  chunks with SQLite's implicit \<^verbatim>\<open>rowid\<close>, and the full-text index \<^verbatim>\<open>chunks_fts\<close>, an
  external-content index keyed by the chunk's rowid. A table is the list of its rows in
  storage order. Timestamps are opaque numbers. The components of a vector are of an
  arbitrary type \<open>'a\<close>: the code only counts, copies and stores them.
\<close>

record document =
  doc_id :: string
  filename :: string
  import_date :: real
  source_type :: string
  source_path :: "string option"
  source_mod_date :: "real option"

record 'a chunk =
  rowid :: nat
  chunk_id :: string
  document_id :: string
  ctext :: string
  vector :: "'a list option"

record 'a store =
  documents :: "document list"
  chunks :: "'a chunk list"
  chunks_fts :: "(nat \<times> string) list"

subsection \<open>Statements on the store\<close>

text \<open>The store after \<^verbatim>\<open>init_db\<close> on a new file: the three tables, empty.\<close>

definition init_db :: "'a store" where
  "init_db = \<lparr>documents = [], chunks = [], chunks_fts = []\<rparr>"

text \<open>\<^verbatim>\<open>SELECT source_path FROM documents WHERE source_path IS NOT NULL\<close>, as a set.\<close>

definition existing_source_paths :: "'a store \<Rightarrow> string set" where
  "existing_source_paths conn = set (List.map_filter source_path (documents conn))"

text \<open>
  \<^verbatim>\<open>insert_document\<close>: the \<^verbatim>\<open>INSERT INTO documents\<close>. The primary key refuses an id
  that a document already has. \<open>now\<close> is what \<^verbatim>\<open>time.time()\<close> returns.
\<close>

definition insert_document :: "'a store \<Rightarrow> string \<Rightarrow> string \<Rightarrow> real \<Rightarrow> string
    \<Rightarrow> string option \<Rightarrow> real option \<Rightarrow> py_exception + 'a store" where
  "insert_document conn did fname now stype spath smod =
     (if did \<in> set (map doc_id (documents conn)) then Inl IntegrityError
      else Inr (conn\<lparr>documents := documents conn @
             [\<lparr>doc_id = did, filename = fname, import_date = now, source_type = stype,
               source_path = spath, source_mod_date = smod\<rparr>]\<rparr>))"

text \<open>The rowid SQLite gives a new row: one more than the largest in the table, 1 in an
  empty table.\<close>

definition next_rowid :: "'a chunk list \<Rightarrow> nat" where
  "next_rowid cs = Suc (fold max (map rowid cs) 0)"

text \<open>
  The trigger \<^verbatim>\<open>chunks_ai\<close>, after an insert on chunks:
  \<^verbatim>\<open>INSERT INTO chunks_fts(rowid, text) VALUES (new.rowid, new.text)\<close>.
\<close>

definition chunks_ai :: "'a chunk \<Rightarrow> 'a store \<Rightarrow> 'a store" where
  "chunks_ai new conn = conn\<lparr>chunks_fts := chunks_fts conn @ [(rowid new, ctext new)]\<rparr>"

text \<open>
  The trigger \<^verbatim>\<open>chunks_ad\<close>, after a delete on chunks: the \<^verbatim>\<open>'delete'\<close> command of the
  index, which removes the entry of the old row.
\<close>

definition chunks_ad :: "'a chunk \<Rightarrow> 'a store \<Rightarrow> 'a store" where
  "chunks_ad old conn = conn\<lparr>chunks_fts := remove1 (rowid old, ctext old) (chunks_fts conn)\<rparr>"

text \<open>
  One \<^verbatim>\<open>INSERT INTO chunks (id, document_id, text, vector) VALUES (?, ?, ?, NULL)\<close>. The
  primary key refuses an id that a chunk already has, and the foreign key (the connection
  of \<^verbatim>\<open>init_db\<close> has \<^verbatim>\<open>foreign_keys = ON\<close>) a document id that no document has. The
  trigger runs after the insert.
\<close>

definition insert_chunk :: "'a store \<Rightarrow> string \<Rightarrow> string \<Rightarrow> string \<Rightarrow> py_exception + 'a store" where
  "insert_chunk conn cid did t =
     (if cid \<in> set (map chunk_id (chunks conn)) then Inl IntegrityError
      else if did \<notin> set (map doc_id (documents conn)) then Inl IntegrityError
      else
        (let new = \<lparr>rowid = next_rowid (chunks conn), chunk_id = cid, document_id = did,
                     ctext = t, vector = None\<rparr>
         in Inr (chunks_ai new (conn\<lparr>chunks := chunks conn @ [new]\<rparr>))))"

text \<open>
  \<^verbatim>\<open>DELETE FROM documents WHERE id = ?\<close> on a connection with \<^verbatim>\<open>foreign_keys = ON\<close>.
  No function of the repository issues it; this is what the schema makes of it. The
  document row goes, \<^verbatim>\<open>ON DELETE CASCADE\<close> deletes the chunks that reference it, and the
  trigger \<^verbatim>\<open>chunks_ad\<close> runs for each of them, all within the one statement.
\<close>

definition delete_document :: "string \<Rightarrow> 'a store \<Rightarrow> 'a store" where
  "delete_document did conn =
     fold chunks_ad (filter (\<lambda>c. document_id c = did) (chunks conn))
       (conn\<lparr>documents := filter (\<lambda>d. doc_id d \<noteq> did) (documents conn),
              chunks := filter (\<lambda>c. document_id c \<noteq> did) (chunks conn)\<rparr>)"

section \<open>The importers (tools/import-knowledge.py)\<close>

text \<open>
  What the importers take from outside: \<^verbatim>\<open>uuid.uuid4()\<close> and \<^verbatim>\<open>time.time()\<close>. The
  \<open>k\<close>-th call of \<^verbatim>\<open>uuid4\<close> in a process returns \<open>uuid4 env k\<close>; the functions below
  thread the number of calls made so far. The time is read at the insert of a document and
  is indexed by the call of \<^verbatim>\<open>uuid4\<close> that made the document's id. An exception that
  escapes ends the program: the result is then the exception alone, \<open>Inl\<close>.
\<close>

record environment =
  uuid4 :: "nat \<Rightarrow> string"
  time_time :: "nat \<Rightarrow> real"

definition MIN_HUMAN_MESSAGES :: nat where
  "MIN_HUMAN_MESSAGES = 5"

definition MAX_FILE_SIZE :: nat where
  "MAX_FILE_SIZE = 50000000"

text \<open>\<^verbatim>\<open>insert_chunks\<close>: one fresh id and one insert for every text, in order.\<close>

fun insert_chunks :: "environment \<Rightarrow> nat \<Rightarrow> 'a store \<Rightarrow> string list \<Rightarrow> string
    \<Rightarrow> py_exception + 'a store \<times> nat" where
  "insert_chunks env k conn [] did = Inr (conn, k)"
| "insert_chunks env k conn (t # ts) did =
     (case insert_chunk conn (uuid4 env k) did t of
        Inl x \<Rightarrow> Inl x
      | Inr conn' \<Rightarrow> insert_chunks env (k + 1) conn' ts did)"

text \<open>
  The steps that the three importers share once the chunks are there: a fresh document id,
  \<^verbatim>\<open>insert_document\<close>, \<^verbatim>\<open>insert_chunks\<close>.
\<close>

definition store_document :: "environment \<Rightarrow> nat \<Rightarrow> 'a store \<Rightarrow> string \<Rightarrow> string
    \<Rightarrow> string option \<Rightarrow> real option \<Rightarrow> string list \<Rightarrow> py_exception + 'a store \<times> nat" where
  "store_document env k conn fname stype spath smod cks =
     (case insert_document conn (uuid4 env k) fname (time_time env k) stype spath smod of
        Inl x \<Rightarrow> Inl x
      | Inr conn' \<Rightarrow> insert_chunks env (k + 1) conn' cks (uuid4 env k))"

subsection \<open>Paths\<close>

text \<open>
  A path is the string \<^verbatim>\<open>str(path)\<close> of a \<^verbatim>\<open>pathlib.Path\<close>, with \<^verbatim>\<open>/\<close> between its
  components. \<^verbatim>\<open>path.name\<close> is the last component, \<^verbatim>\<open>path.parent.name\<close> the one before
  it, and \<^verbatim>\<open>path.stem\<close> the name without its last suffix.
\<close>

definition path_name :: "string \<Rightarrow> string" where
  "path_name p = last (split ''/'' p)"

definition path_parent_name :: "string \<Rightarrow> string" where
  "path_parent_name p =
     (let parts = split ''/'' p
      in if length parts < 2 then [] else parts ! (length parts - 2))"

definition path_stem :: "string \<Rightarrow> string" where
  "path_stem p =
     (let name = path_name p; i = rfind (CHR ''.'') name
      in if 0 < i \<and> i < int (length name) - 1 then take (nat i) name else name)"

subsection \<open>The single-file import\<close>

text \<open>
  \<^verbatim>\<open>import_file\<close>. \<open>contents\<close> is what \<^verbatim>\<open>path.read_text\<close> gives for the file: its text,
  or \<open>None\<close> when the read raises. The result is the store and the count of \<^verbatim>\<open>uuid4\<close>
  calls afterwards.
\<close>

definition import_file :: "environment \<Rightarrow> string option \<Rightarrow> string \<Rightarrow> 'a store \<times> nat
    \<Rightarrow> py_exception + 'a store \<times> nat" where
  "import_file env contents file_path st =
     (case contents of
        None \<Rightarrow> Inl OSError
      | Some t \<Rightarrow>
          (let cks = chunk_text t
           in if cks = [] then Inr st
              else store_document env (snd st) (fst st) (path_name file_path) ''file''
                     (Some file_path) None cks))"

subsection \<open>The import of Claude Code transcripts\<close>

text \<open>
  One transcript file as \<^verbatim>\<open>import_claude_code\<close> sees it: its path, what \<^verbatim>\<open>stat\<close> gives
  (size and modification time; \<open>None\<close> when it raises \<^verbatim>\<open>OSError\<close>) and what
  \<^verbatim>\<open>parse_cc_jsonl\<close> returns for it (the messages, each a role and a text; \<open>None\<close> when it
  raises).
\<close>

record jsonl_file =
  fpath :: string
  stat :: "(nat \<times> real) option"
  parsed :: "(string \<times> string) list option"

record import_report =
  found :: nat
  new_found :: nat
  imported :: nat
  skipped :: nat

text \<open>\<^verbatim>\<open>"\n\n".join(f"[{role}]\n{text}" for role, text in messages)\<close>\<close>

definition transcript_of :: "(string \<times> string) list \<Rightarrow> string" where
  "transcript_of messages =
     join [NL, NL] (map (\<lambda>(role, t). ''['' @ role @ '']'' @ [NL] @ t) messages)"

text \<open>The loop over \<^verbatim>\<open>to_process\<close>, with the two counters.\<close>

fun import_transcripts :: "environment \<Rightarrow> jsonl_file list \<Rightarrow> 'a store \<times> nat \<Rightarrow> import_report
    \<Rightarrow> py_exception + ('a store \<times> nat) \<times> import_report" where
  "import_transcripts env [] st rep = Inr (st, rep)"
| "import_transcripts env (f # fs) st rep =
     (case stat f of
        None \<Rightarrow> import_transcripts env fs st (rep\<lparr>skipped := skipped rep + 1\<rparr>)
      | Some (st_size, mtime) \<Rightarrow>
          if st_size > MAX_FILE_SIZE
          then import_transcripts env fs st (rep\<lparr>skipped := skipped rep + 1\<rparr>)
          else
            (case parsed f of
               None \<Rightarrow> import_transcripts env fs st (rep\<lparr>skipped := skipped rep + 1\<rparr>)
             | Some messages \<Rightarrow>
                 if length (filter (\<lambda>(r, t). r = ''Human'') messages) < MIN_HUMAN_MESSAGES
                 then import_transcripts env fs st (rep\<lparr>skipped := skipped rep + 1\<rparr>)
                 else
                   (let cks = chunk_text (transcript_of messages)
                    in if cks = []
                       then import_transcripts env fs st (rep\<lparr>skipped := skipped rep + 1\<rparr>)
                       else
                         (case store_document env (snd st) (fst st)
                                 (''claude-code/'' @ path_parent_name (fpath f) @ ''/''
                                    @ path_stem (fpath f))
                                 ''claude_code'' (Some (fpath f)) (Some mtime) cks of
                            Inl x \<Rightarrow> Inl x
                          | Inr st' \<Rightarrow>
                              import_transcripts env fs st'
                                (rep\<lparr>imported := imported rep + 1\<rparr>)))))"

text \<open>
  \<^verbatim>\<open>import_claude_code\<close>. \<open>jsonl_files\<close> is \<^verbatim>\<open>sorted(directory.rglob("*.jsonl"))\<close>: the
  transcript files under the directory. Those whose path is a recorded source path are
  left out before the loop.
\<close>

definition import_claude_code :: "environment \<Rightarrow> jsonl_file list \<Rightarrow> 'a store \<times> nat
    \<Rightarrow> py_exception + ('a store \<times> nat) \<times> import_report" where
  "import_claude_code env jsonl_files st =
     (if jsonl_files = []
      then Inr (st, \<lparr>found = 0, new_found = 0, imported = 0, skipped = 0\<rparr>)
      else
        (let existing = existing_source_paths (fst st);
             to_process = filter (\<lambda>f. fpath f \<notin> existing) jsonl_files;
             rep = \<lparr>found = length jsonl_files, new_found = length to_process,
                     imported = 0, skipped = 0\<rparr>
         in if to_process = [] then Inr (st, rep)
            else import_transcripts env to_process st rep))"

subsection \<open>The import of a Claude.ai export\<close>

text \<open>
  A field of a JSON object of the export, as the importer reads it: the key is missing, or
  its value is \<^verbatim>\<open>null\<close>, a string, or another JSON value, given by the text that an
  f-string makes of it.
\<close>

datatype json_field = Missing | Null | Str string | Other string

text \<open>What an f-string makes of the value of a field that is there.\<close>

definition field_str :: "json_field \<Rightarrow> string" where
  "field_str v = (case v of Missing \<Rightarrow> [] | Null \<Rightarrow> ''None'' | Str x \<Rightarrow> x | Other x \<Rightarrow> x)"

text \<open>
  A message with its fields \<^verbatim>\<open>sender\<close> and \<^verbatim>\<open>text\<close>, and a conversation with its field
  \<^verbatim>\<open>name\<close> and its list \<^verbatim>\<open>chat_messages\<close> (empty when the key is missing).
\<close>

record chat_message =
  sender :: json_field
  mtext :: json_field

record conversation =
  conv_name :: json_field
  chat_messages :: "chat_message list"

text \<open>The test of the list \<^verbatim>\<open>eligible\<close>, with \<^verbatim>\<open>m.get("sender") == "human"\<close>.\<close>

definition eligible :: "conversation \<Rightarrow> bool" where
  "eligible c =
     (length (filter (\<lambda>m. sender m = Str ''human'') (chat_messages c)) \<ge> MIN_HUMAN_MESSAGES)"

text \<open>
  \<^verbatim>\<open>f"[{'Human' if m['sender'] == 'human' else 'Assistant'}]\n{m['text']}"\<close> for one
  message: the subscripts raise \<^verbatim>\<open>KeyError\<close> on a missing key.
\<close>

definition message_block :: "chat_message \<Rightarrow> py_exception + string" where
  "message_block m =
     (if sender m = Missing then Inl KeyError
      else if mtext m = Missing then Inl KeyError
      else Inr (''['' @ (if sender m = Str ''human'' then ''Human'' else ''Assistant'') @ '']''
                  @ [NL] @ field_str (mtext m)))"

fun message_blocks :: "chat_message list \<Rightarrow> py_exception + string list" where
  "message_blocks [] = Inr []"
| "message_blocks (m # ms) =
     (case message_block m of
        Inl x \<Rightarrow> Inl x
      | Inr b \<Rightarrow> (case message_blocks ms of Inl x \<Rightarrow> Inl x | Inr bs \<Rightarrow> Inr (b # bs)))"

text \<open>The transcript of a conversation: the blocks of its messages joined by blank lines.\<close>

definition conversation_transcript :: "conversation \<Rightarrow> py_exception + string" where
  "conversation_transcript c =
     (case message_blocks (chat_messages c) of
        Inl x \<Rightarrow> Inl x
      | Inr bs \<Rightarrow> Inr (join [NL, NL] bs))"

text \<open>The display name \<^verbatim>\<open>f"claude.ai: {name}"\<close> with
  \<^verbatim>\<open>name = conv.get("name", "Untitled")\<close>.\<close>

definition conversation_filename :: "conversation \<Rightarrow> string" where
  "conversation_filename c =
     ''claude.ai: '' @ (case conv_name c of Missing \<Rightarrow> ''Untitled'' | v \<Rightarrow> field_str v)"

text \<open>
  The loop over the eligible conversations, with the counter \<^verbatim>\<open>imported\<close>. The only
  commit follows the loop: an exception in it leaves nothing of the run in the store.
\<close>

fun import_conversations :: "environment \<Rightarrow> conversation list \<Rightarrow> 'a store \<times> nat \<Rightarrow> nat
    \<Rightarrow> py_exception + ('a store \<times> nat) \<times> nat" where
  "import_conversations env [] st n = Inr (st, n)"
| "import_conversations env (c # cs) st n =
     (case conversation_transcript c of
        Inl x \<Rightarrow> Inl x
      | Inr transcript \<Rightarrow>
          (let cks = chunk_text transcript
           in if cks = [] then import_conversations env cs st n
              else
                (case store_document env (snd st) (fst st) (conversation_filename c)
                        ''claude_ai'' None None cks of
                   Inl x \<Rightarrow> Inl x
                 | Inr st' \<Rightarrow> import_conversations env cs st' (n + 1))))"

text \<open>\<^verbatim>\<open>import_claude_ai\<close>, on the conversations that \<^verbatim>\<open>json.load\<close> read from the
  export.\<close>

definition import_claude_ai :: "environment \<Rightarrow> conversation list \<Rightarrow> 'a store \<times> nat
    \<Rightarrow> py_exception + ('a store \<times> nat) \<times> nat" where
  "import_claude_ai env conversations st =
     import_conversations env (filter eligible conversations) st 0"

section \<open>The embedding worker (WORKER\_SCRIPT of tools/embed-knowledge.py)\<close>

text \<open>
  The embedding capability is external: whether the model loads, the message when it does
  not, the dimension it reports, and the vector it returns for a string (\<open>None\<close> when it
  returns nothing). Its components are of a type \<open>'v\<close>; what the store holds are
  single-precision floats, of type \<open>'a\<close>. The last field is not the capability's: it is
  what \<^verbatim>\<open>struct.pack\<close> with the format \<^verbatim>\<open>f\<close> makes of \<^verbatim>\<open>float(x)\<close> for a component
  \<open>x\<close>, the single-precision float nearest to it. It is carried here because the model
  leaves both types open.
\<close>

record ('v, 'a) embedder =
  load_ok :: bool
  load_err :: string
  sentenceVectorDimension :: nat
  sentenceEmbeddingVector :: "string \<Rightarrow> 'v list option"
  float32 :: "'v \<Rightarrow> 'a"

text \<open>
  What the orchestrator's \<^verbatim>\<open>json.loads(result.stdout.strip())\<close> and the reads that follow
  make of a worker's standard output: no JSON at all, an object with the key \<^verbatim>\<open>error\<close>, an
  object with the two counters, or JSON of another shape, on which the reads of
  \<^verbatim>\<open>info["processed"]\<close> and \<^verbatim>\<open>info["embedded"]\<close> raise.
\<close>

datatype worker_stdout =
  NotJson
  | ErrorPayload string
  | Counts (embedded: int) (processed: int)
  | OtherJson

text \<open>\<^verbatim>\<open>subprocess.run(..., timeout=600)\<close> returns the completed process or raises
  \<^verbatim>\<open>TimeoutExpired\<close>.\<close>

datatype run_result =
  Completed (returncode: int) (stdout: worker_stdout)
  | TimeoutExpired

text \<open>\<^verbatim>\<open>SELECT id, text FROM chunks WHERE vector IS NULL LIMIT ?\<close>\<close>

definition select_unembedded :: "nat \<Rightarrow> 'a chunk list \<Rightarrow> (string \<times> string) list" where
  "select_unembedded limit cs =
     take limit (map (\<lambda>c. (chunk_id c, ctext c)) (filter (\<lambda>c. vector c = None) cs))"

text \<open>\<^verbatim>\<open>UPDATE chunks SET vector = ? WHERE id = ?\<close>: every row with that id is updated, and
  no row is an update of nothing, not an error.\<close>

definition update_vector :: "'a list \<Rightarrow> string \<Rightarrow> 'a chunk list \<Rightarrow> 'a chunk list" where
  "update_vector blob cid cs =
     map (\<lambda>c. if chunk_id c = cid then c\<lparr>vector := Some blob\<rparr> else c) cs"

text \<open>\<^verbatim>\<open>struct.pack(f"{dim}f", *[float(vec[i]) for i in range(dim)])\<close>: the first \<^verbatim>\<open>dim\<close>
  components, in order, each converted to a single-precision float by \<open>f32\<close>. It is only
  called with \<open>len(vec) == dim\<close>.\<close>

definition pack :: "('v \<Rightarrow> 'a) \<Rightarrow> nat \<Rightarrow> 'v list \<Rightarrow> 'a list" where
  "pack f32 d vec = map (\<lambda>i. f32 (vec ! i)) [0..<d]"

text \<open>The string handed to the embedding capability: \<^verbatim>\<open>text[:512]\<close>.\<close>

definition embed_input :: "string \<Rightarrow> string" where
  "embed_input t = take 512 t"

text \<open>The test \<^verbatim>\<open>if vec and len(vec) == dim\<close>: a vector was returned, it is not empty, and
  it has the reported dimension.\<close>

definition accepted :: "nat \<Rightarrow> 'v list option \<Rightarrow> bool" where
  "accepted d vec = (case vec of None \<Rightarrow> False | Some v \<Rightarrow> v \<noteq> [] \<and> length v = d)"

text \<open>The worker's loop over the selected rows, with the running \<^verbatim>\<open>count\<close>.\<close>

fun embed_rows :: "('v, 'a) embedder \<Rightarrow> (string \<times> string) list \<Rightarrow> 'a chunk list \<Rightarrow> nat
    \<Rightarrow> 'a chunk list \<times> nat" where
  "embed_rows e [] cs cnt = (cs, cnt)"
| "embed_rows e ((cid, t) # rows) cs cnt =
     (let vec = sentenceEmbeddingVector e (embed_input t) in
      if accepted (sentenceVectorDimension e) vec
      then embed_rows e rows
             (update_vector (pack (float32 e) (sentenceVectorDimension e) (the vec)) cid cs)
             (cnt + 1)
      else embed_rows e rows cs cnt)"

text \<open>
  One run of the worker to completion on the store: when the model does not load it prints
  the error object and exits with status 1; otherwise it embeds the selected rows, commits
  and prints the two counters, exiting with status 0.
\<close>

definition worker_script :: "('v, 'a) embedder \<Rightarrow> nat \<Rightarrow> 'a store \<Rightarrow> run_result \<times> 'a store" where
  "worker_script e limit db =
     (if \<not> load_ok e then (Completed 1 (ErrorPayload (load_err e)), db)
      else
        let rows = select_unembedded limit (chunks db);
            (cs, cnt) = embed_rows e rows (chunks db) 0
        in (Completed 0 (Counts (int cnt) (int (length rows))), db\<lparr>chunks := cs\<rparr>))"

section \<open>The backfill orchestrator (main of tools/embed-knowledge.py)\<close>

definition BATCH_SIZE :: nat where
  "BATCH_SIZE = 2000"

text \<open>
  What becomes of a spawned worker is not decided by the script alone: the process may run
  to completion, die with an exit status (the crash the subprocess isolation is there
  for), or still be running when the timeout of 600 seconds elapses. A worker that dies or
  hangs has not committed: the script commits once, after its loop.
\<close>

datatype fate = Completes | Dies int | Hangs

definition spawn_worker :: "('v, 'a) embedder \<Rightarrow> fate \<Rightarrow> 'a store \<Rightarrow> run_result \<times> 'a store" where
  "spawn_worker e f db =
     (case f of
        Completes \<Rightarrow> worker_script e BATCH_SIZE db
      | Dies rc \<Rightarrow> (Completed rc NotJson, db)
      | Hangs \<Rightarrow> (TimeoutExpired, db))"

text \<open>
  The variables of the loop (\<open>n_done\<close> is the code's \<^verbatim>\<open>done\<close>), and two counters that only observe it: the calls of
  \<^verbatim>\<open>subprocess.run\<close> so far and the calls of \<^verbatim>\<open>time.sleep(2)\<close> so far.
\<close>

record loop_state =
  n_done :: int
  retries :: nat
  dispatched :: nat
  slept :: nat

text \<open>
  The terminal states of the specification, read off the code's exits: the loop condition
  failing and the \<^verbatim>\<open>processed == 0\<close> break are \<open>Stopped\<close>; the breaks after
  "Too many failures", "Bad output" and "Worker error" are \<open>Aborted\<close>. An exception that
  nothing catches ends the program without reaching either.
\<close>

datatype terminal = Stopped | Aborted

datatype step_result =
  Continue loop_state
  | Break terminal loop_state
  | Raise py_exception loop_state

text \<open>One pass through the body of \<^verbatim>\<open>while done < total\<close>, given what
  \<^verbatim>\<open>subprocess.run\<close> did.\<close>

definition loop_body :: "run_result \<Rightarrow> loop_state \<Rightarrow> step_result" where
  "loop_body r s =
     (case r of
        TimeoutExpired \<Rightarrow> Raise TimeoutExpiredError s
      | Completed rc out \<Rightarrow>
          if rc \<noteq> 0 then
            (let s1 = s\<lparr>retries := retries s + 1\<rparr> in
             if retries s1 > 5 then Break Aborted s1
             else Continue (s1\<lparr>slept := slept s1 + 1\<rparr>))
          else
            (let s1 = s\<lparr>retries := 0\<rparr> in
             case out of
               NotJson \<Rightarrow> Break Aborted s1
             | ErrorPayload msg \<Rightarrow> Break Aborted s1
             | OtherJson \<Rightarrow> Raise KeyError s1
             | Counts emb proc \<Rightarrow>
                 if proc = 0 then Break Stopped s1
                 else Continue (s1\<lparr>n_done := n_done s1 + emb\<rparr>)))"

datatype 'a outcome =
  Finished terminal loop_state "'a store"
  | Uncaught py_exception loop_state "'a store"

text \<open>
  The loop. The first argument bounds the number of worker dispatches: \<open>None\<close> means that
  the loop wanted to dispatch once more than allowed. The fate of the \<open>k\<close>-th dispatched
  worker (counting from 0) is \<open>fates k\<close>.
\<close>

fun main_loop :: "nat \<Rightarrow> ('v, 'a) embedder \<Rightarrow> (nat \<Rightarrow> fate) \<Rightarrow> int \<Rightarrow> 'a store \<Rightarrow> loop_state
    \<Rightarrow> 'a outcome option" where
  "main_loop 0 e fates tot db s =
     (if n_done s < tot then None else Some (Finished Stopped s db))"
| "main_loop (Suc fuel) e fates tot db s =
     (if n_done s < tot then
        (case spawn_worker e (fates (dispatched s)) db of
           (r, db') \<Rightarrow>
             (case loop_body r (s\<lparr>dispatched := dispatched s + 1\<rparr>) of
                Continue s' \<Rightarrow> main_loop fuel e fates tot db' s'
              | Break t s' \<Rightarrow> Some (Finished t s' db')
              | Raise x s' \<Rightarrow> Some (Uncaught x s' db')))
      else Some (Finished Stopped s db))"

text \<open>\<^verbatim>\<open>SELECT count(*) FROM chunks WHERE vector IS NULL\<close>\<close>

definition count_unembedded :: "'a store \<Rightarrow> nat" where
  "count_unembedded db = length (filter (\<lambda>c. vector c = None) (chunks db))"

definition initial :: loop_state where
  "initial = \<lparr>n_done = 0, retries = 0, dispatched = 0, slept = 0\<rparr>"

definition main :: "nat \<Rightarrow> ('v, 'a) embedder \<Rightarrow> (nat \<Rightarrow> fate) \<Rightarrow> 'a store \<Rightarrow> 'a outcome option" where
  "main fuel e fates db =
     (let tot = count_unembedded db in
      if tot = 0 then Some (Finished Stopped initial db)
      else main_loop fuel e fates (int tot) db initial)"

text \<open>The state a pass through the loop body leaves, however it ends.\<close>

definition state_of :: "step_result \<Rightarrow> loop_state" where
  "state_of r = (case r of Continue s \<Rightarrow> s | Break t s \<Rightarrow> s | Raise x s \<Rightarrow> s)"

subsection \<open>Assumptions on the environment of a backfill run\<close>

text \<open>Every worker invocation exits with a non-zero status: it dies with one, or it runs
  the script and the model does not load (the script then exits with status 1).\<close>

definition always_crashes :: "('v, 'a) embedder \<Rightarrow> (nat \<Rightarrow> fate) \<Rightarrow> bool" where
  "always_crashes e fates =
     (\<forall>k. case fates k of Dies rc \<Rightarrow> rc \<noteq> 0 | Completes \<Rightarrow> \<not> load_ok e | Hangs \<Rightarrow> False)"

text \<open>The embedding capability always succeeds: the model loads, and every string gets a
  vector that the worker's test accepts.\<close>

definition always_embeds :: "('v, 'a) embedder \<Rightarrow> bool" where
  "always_embeds e =
     (load_ok e \<and> (\<forall>t. accepted (sentenceVectorDimension e) (sentenceEmbeddingVector e t)))"

text \<open>The embedding capability loads but never yields a vector that the worker's test
  accepts: every chunk is permanently unembeddable.\<close>

definition never_embeds :: "('v, 'a) embedder \<Rightarrow> bool" where
  "never_embeds e =
     (load_ok e \<and> (\<forall>t. \<not> accepted (sentenceVectorDimension e) (sentenceEmbeddingVector e t)))"

subsection \<open>Concrete inputs\<close>

text \<open>In the concrete inputs a component is an integer, and so is a single-precision
  float: the integers used are floats, except 16777217, which lies between two of them and
  is rounded to 16777216.\<close>

definition example_document :: document where
  "example_document = \<lparr>doc_id = ''d1'', filename = ''notes.md'', import_date = 0,
     source_type = ''file'', source_path = Some ''/tmp/notes.md'', source_mod_date = None\<rparr>"

definition example_chunk :: "int chunk" where
  "example_chunk = \<lparr>rowid = 1, chunk_id = ''c1'', document_id = ''d1'', ctext = ''hello'',
     vector = None\<rparr>"

definition example_db :: "int store" where
  "example_db = \<lparr>documents = [example_document], chunks = [example_chunk],
     chunks_fts = [(1, ''hello'')]\<rparr>"

definition working_embedder :: "(int, int) embedder" where
  "working_embedder = \<lparr>load_ok = True, load_err = [], sentenceVectorDimension = 2,
     sentenceEmbeddingVector = (\<lambda>t. Some [1, 2]), float32 = (\<lambda>x. x)\<rparr>"

definition rounding_embedder :: "(int, int) embedder" where
  "rounding_embedder = \<lparr>load_ok = True, load_err = [], sentenceVectorDimension = 2,
     sentenceEmbeddingVector = (\<lambda>t. Some [16777217, 2]),
     float32 = (\<lambda>x. if x = 16777217 then 16777216 else x)\<rparr>"

definition mute_embedder :: "(int, int) embedder" where
  "mute_embedder = \<lparr>load_ok = True, load_err = [], sentenceVectorDimension = 2,
     sentenceEmbeddingVector = (\<lambda>t. None), float32 = (\<lambda>x. x)\<rparr>"

section \<open>Notions used to state the properties of the worker\<close>

text \<open>Every vector stored in the chunks has \<open>d\<close> components.\<close>

definition uniform_dimension :: "nat \<Rightarrow> 'a chunk list \<Rightarrow> bool" where
  "uniform_dimension d cs =
     list_all (\<lambda>c. case vector c of None \<Rightarrow> True | Some v \<Rightarrow> length v = d) cs"

text \<open>Two chunk rows with the same id and the same vector whose texts agree on their
  first 512 characters.\<close>

definition agree_512 :: "'a chunk \<Rightarrow> 'a chunk \<Rightarrow> bool" where
  "agree_512 c1 c2 =
     (chunk_id c1 = chunk_id c2 \<and> vector c1 = vector c2
      \<and> take 512 (ctext c1) = take 512 (ctext c2))"

text \<open>A store that already holds a vector of three components, and a chunk to embed.\<close>

definition mixed_db :: "int store" where
  "mixed_db = \<lparr>documents = [example_document],
     chunks = [\<lparr>rowid = 1, chunk_id = ''c0'', document_id = ''d1'', ctext = ''old'',
                vector = Some [7, 8, 9]\<rparr>,
               \<lparr>rowid = 2, chunk_id = ''c1'', document_id = ''d1'', ctext = ''hello'',
                vector = None\<rparr>],
     chunks_fts = [(1, ''old''), (2, ''hello'')]\<rparr>"

text \<open>An embedding capability whose vector depends on the string it is given, and two
  stores whose single chunk differs only after its 512th character.\<close>

definition length_embedder :: "(int, int) embedder" where
  "length_embedder = \<lparr>load_ok = True, load_err = [], sentenceVectorDimension = 2,
     sentenceEmbeddingVector = (\<lambda>t. Some [int (length t), 0]), float32 = (\<lambda>x. x)\<rparr>"

definition long_db :: "string \<Rightarrow> int store" where
  "long_db tail = \<lparr>documents = [example_document],
     chunks = [example_chunk\<lparr>ctext := replicate 512 (CHR ''a'') @ tail\<rparr>],
     chunks_fts = [(1, replicate 512 (CHR ''a'') @ tail)]\<rparr>"

section \<open>Notions used to state the properties of the store and the importers\<close>

text \<open>The entry that the full-text index holds for a chunk row: its rowid and its text.\<close>

definition fts_key :: "'a chunk \<Rightarrow> nat \<times> string" where
  "fts_key c = (rowid c, ctext c)"

text \<open>The entries of the full-text index are, one for one, those of the chunk rows.\<close>

definition fts_in_sync :: "'a store \<Rightarrow> bool" where
  "fts_in_sync conn = (mset (chunks_fts conn) = mset (map fts_key (chunks conn)))"

text \<open>Every chunk row references a document row.\<close>

definition no_orphans :: "'a store \<Rightarrow> bool" where
  "no_orphans conn =
     list_all (\<lambda>c. document_id c \<in> set (map doc_id (documents conn))) (chunks conn)"

definition consistent :: "'a store \<Rightarrow> bool" where
  "consistent conn = (fts_in_sync conn \<and> no_orphans conn)"

text \<open>The statements that change the store, and their effect: the inserts of the
  importer, the worker's update of a vector, and the delete of a document.\<close>

datatype 'a store_op =
  Insert_document string string real string "string option" "real option"
  | Insert_chunk string string string
  | Write_vector "'a list" string
  | Delete_document string

fun run_op :: "'a store_op \<Rightarrow> 'a store \<Rightarrow> py_exception + 'a store" where
  "run_op (Insert_document did fname now stype spath smod) conn =
     insert_document conn did fname now stype spath smod"
| "run_op (Insert_chunk cid did t) conn = insert_chunk conn cid did t"
| "run_op (Write_vector blob cid) conn =
     Inr (conn\<lparr>chunks := update_vector blob cid (chunks conn)\<rparr>)"
| "run_op (Delete_document did) conn = Inr (delete_document did conn)"

text \<open>The ids that \<^verbatim>\<open>uuid4\<close> returns from its \<open>k\<close>-th call on are pairwise different and
  none of them is in the store.\<close>

definition fresh_from :: "environment \<Rightarrow> nat \<Rightarrow> 'a store \<Rightarrow> bool" where
  "fresh_from env k conn =
     (inj (uuid4 env)
      \<and> (\<forall>j. k \<le> j \<longrightarrow> uuid4 env j \<notin> set (map doc_id (documents conn))
                        \<and> uuid4 env j \<notin> set (map chunk_id (chunks conn))))"

text \<open>Every message of the conversation has the keys \<^verbatim>\<open>sender\<close> and \<^verbatim>\<open>text\<close>.\<close>

definition well_formed :: "conversation \<Rightarrow> bool" where
  "well_formed c =
     list_all (\<lambda>m. sender m \<noteq> Missing \<and> mtext m \<noteq> Missing) (chat_messages c)"

text \<open>The transcript of a conversation whose messages have both keys.\<close>

definition transcript_text :: "conversation \<Rightarrow> string" where
  "transcript_text c =
     join [NL, NL]
       (map (\<lambda>m. ''['' @ (if sender m = Str ''human'' then ''Human'' else ''Assistant'') @ '']''
                  @ [NL] @ field_str (mtext m))
          (chat_messages c))"

subsection \<open>Concrete inputs for the importers and the chunker\<close>

definition example_env :: environment where
  "example_env = \<lparr>uuid4 = (\<lambda>k. replicate (Suc k) (CHR ''u'')), time_time = (\<lambda>k. real k)\<rparr>"

definition example_conversation :: conversation where
  "example_conversation = \<lparr>conv_name = Str ''plans'',
     chat_messages = replicate 5 \<lparr>sender = Str ''human'', mtext = Str ''hello''\<rparr>\<rparr>"

text \<open>The same conversation with a sixth message that has no text.\<close>

definition broken_conversation :: conversation where
  "broken_conversation = \<lparr>conv_name = Null,
     chat_messages = replicate 5 \<lparr>sender = Str ''human'', mtext = Str ''hello''\<rparr>
       @ [\<lparr>sender = Str ''assistant'', mtext = Missing\<rparr>]\<rparr>"

definition example_transcript :: jsonl_file where
  "example_transcript = \<lparr>fpath = ''/p/s.jsonl'', stat = Some (100, 7),
     parsed = Some (replicate 5 (''Human'', ''hello''))\<rparr>"

text \<open>One paragraph of 902 characters, made of three sentences of 300 characters.\<close>

definition long_paragraph :: string where
  "long_paragraph = replicate 299 (CHR ''a'') @ ''. '' @ replicate 299 (CHR ''b'') @ ''. ''
     @ replicate 300 (CHR ''c'')"

text \<open>What the chunker's thresholds leave of a bound on a fragment, for a text whose
  paragraphs are \<open>P\<close>: it has at most 601 characters, or it is one of the paragraphs, or it
  is one of the sentences of a paragraph.\<close>

definition fragment_ok :: "string set \<Rightarrow> string \<Rightarrow> bool" where
  "fragment_ok P c =
     (length c \<le> 601 \<or> c \<in> P \<or> (\<exists>p \<in> P. c \<in> set (sentences_of p)))"

section \<open>Verification of the orchestrator\<close>

subsection \<open>A worker that always exits with a non-zero status\<close>

lemma crash_spawn:
  assumes "always_crashes e fates"
  shows "\<exists>rc out. rc \<noteq> 0 \<and> spawn_worker e (fates k) db = (Completed rc out, db)"
  using assms [unfolded always_crashes_def, rule_format, of k]
  by (cases "fates k") (simp_all add: spawn_worker_def worker_script_def)

lemma crash_loop:
  assumes "always_crashes e fates" and "n_done s < tot" and "retries s \<le> 5"
  shows "main_loop fuel e fates tot db s =
           (if 6 - retries s \<le> fuel
            then Some (Finished Aborted
                   (s\<lparr>retries := 6, dispatched := dispatched s + (6 - retries s),
                      slept := slept s + (5 - retries s)\<rparr>) db)
            else None)"
  using assms(2,3)
proof (induction fuel arbitrary: s)
  case 0
  then show ?case by simp
next
  case (Suc fuel)
  obtain rc out where rc: "rc \<noteq> 0"
    and sp: "spawn_worker e (fates (dispatched s)) db = (Completed rc out, db)"
    using crash_spawn [OF assms(1)] by blast
  show ?case
  proof (cases "retries s = 5")
    case True
    with Suc.prems rc sp show ?thesis by (simp add: loop_body_def)
  next
    case False
    let ?s' = "s\<lparr>dispatched := dispatched s + 1, retries := retries s + 1, slept := slept s + 1\<rparr>"
    have ih: "main_loop fuel e fates tot db ?s' =
           (if 6 - retries ?s' \<le> fuel
            then Some (Finished Aborted
                   (?s'\<lparr>retries := 6, dispatched := dispatched ?s' + (6 - retries ?s'),
                      slept := slept ?s' + (5 - retries ?s')\<rparr>) db)
            else None)"
      using Suc.prems False by (intro Suc.IH) simp_all
    have step: "main_loop (Suc fuel) e fates tot db s = main_loop fuel e fates tot db ?s'"
      using Suc.prems False rc sp by (simp add: loop_body_def)
    show ?thesis
      unfolding step ih using Suc.prems False by auto
  qed
qed

text \<open>
  Claim C6, as the code has it. If every worker invocation exits with a non-zero status
  and there is something to embed, the orchestrator reaches Aborted at the sixth
  consecutive crash, when the counter exceeds the ceiling of 5: after exactly six worker
  invocations and five sleeps of the fixed backoff, one between each two attempts. Fewer
  than six dispatches never end the run. A worker that exits with status 0 resets the
  counter of consecutive crashes to zero, whatever it printed.
\<close>

theorem retry_ceiling_six_attempts:
  "always_crashes e fates \<and> count_unembedded db \<noteq> 0 \<longrightarrow>
     main fuel e fates db =
       (if 6 \<le> fuel
        then Some (Finished Aborted
               \<lparr>n_done = 0, retries = 6, dispatched = 6, slept = 5\<rparr> db)
        else None)
     \<and> retries (state_of (loop_body (Completed 0 out) s)) = 0"
proof (intro impI conjI)
  assume a: "always_crashes e fates \<and> count_unembedded db \<noteq> 0"
  have "main_loop fuel e fates (int (count_unembedded db)) db initial =
          (if 6 - retries initial \<le> fuel
           then Some (Finished Aborted
                  (initial\<lparr>retries := 6, dispatched := dispatched initial + (6 - retries initial),
                     slept := slept initial + (5 - retries initial)\<rparr>) db)
           else None)"
    using a by (intro crash_loop) (simp_all add: initial_def)
  then show "main fuel e fates db =
       (if 6 \<le> fuel
        then Some (Finished Aborted
               \<lparr>n_done = 0, retries = 6, dispatched = 6, slept = 5\<rparr> db)
        else None)"
    using a by (simp add: main_def initial_def)
next
  show "retries (state_of (loop_body (Completed 0 out) s)) = 0"
    by (cases out) (simp_all add: loop_body_def state_of_def Let_def)
qed

theorem retry_ceiling_six_attempts_witness:
  "main 6 working_embedder (\<lambda>k. Dies 1) example_db =
     Some (Finished Aborted \<lparr>n_done = 0, retries = 6, dispatched = 6, slept = 5\<rparr> example_db)
   \<and> retries (state_of (loop_body (Completed 0 (Counts 3 3))
        \<lparr>n_done = 0, retries = 4, dispatched = 4, slept = 4\<rparr>)) = 0"
proof -
  have h: "always_crashes working_embedder (\<lambda>k. Dies 1) \<and> count_unembedded example_db \<noteq> 0"
    by (simp add: always_crashes_def count_unembedded_def example_db_def example_chunk_def)
  show ?thesis
    using retry_ceiling_six_attempts [of working_embedder "\<lambda>k. Dies 1" example_db 6
        "Counts 3 3" "\<lparr>n_done = 0, retries = 4, dispatched = 4, slept = 4\<rparr>"] h
    by simp
qed

text \<open>
  Claim C6 as stated fails: with a worker that always exits with status 1, five worker
  attempts do not bring the orchestrator to Aborted. It dispatches a sixth.
\<close>

theorem abort_after_five_counterexample:
  "main 5 working_embedder (\<lambda>k. Dies 1) example_db = None
   \<and> main 6 working_embedder (\<lambda>k. Dies 1) example_db =
       Some (Finished Aborted \<lparr>n_done = 0, retries = 6, dispatched = 6, slept = 5\<rparr> example_db)"
  by code_simp

subsection \<open>A worker that exceeds the timeout\<close>

lemma timeout_uncaught:
  assumes "n_done s < tot" and "fates (dispatched s) = Hangs"
  shows "main_loop (Suc fuel) e fates tot db s =
           Some (Uncaught TimeoutExpiredError (s\<lparr>dispatched := dispatched s + 1\<rparr>) db)"
  using assms by (simp add: spawn_worker_def loop_body_def)

text \<open>
  Claim C1 at a concrete run. The store has one chunk to embed and the first worker is
  still running when the timeout elapses: \<^verbatim>\<open>subprocess.run\<close> raises, nothing catches the
  exception, and the run ends with it after one dispatch, the retry counter still 0 and no
  backoff slept, in neither terminal state. The same run with a first worker that dies
  with status 1 instead counts one retry, sleeps once, dispatches again and reaches
  Stopped.
\<close>

theorem timeout_ends_run_with_exception:
  "main 3 working_embedder (\<lambda>k. if k = 0 then Hangs else Completes) example_db =
     Some (Uncaught TimeoutExpiredError
       \<lparr>n_done = 0, retries = 0, dispatched = 1, slept = 0\<rparr> example_db)
   \<and> main 3 working_embedder (\<lambda>k. if k = 0 then Dies 1 else Completes) example_db =
     Some (Finished Stopped \<lparr>n_done = 1, retries = 0, dispatched = 2, slept = 1\<rparr>
       (example_db\<lparr>chunks := [example_chunk\<lparr>vector := Some [1, 2]\<rparr>]\<rparr>))"
  by code_simp

subsection \<open>An embedding capability that always succeeds\<close>

lemma update_vector_ids: "map chunk_id (update_vector b cid cs) = map chunk_id cs"
  by (induction cs) (simp_all add: update_vector_def)

lemma update_vector_other:
  "c \<in> set cs \<Longrightarrow> chunk_id c \<noteq> cid \<Longrightarrow> c \<in> set (update_vector b cid cs)"
  by (induction cs) (auto simp: update_vector_def)

lemma update_vector_absent:
  "cid \<notin> chunk_id ` set cs \<Longrightarrow> update_vector b cid cs = cs"
  by (induction cs) (auto simp: update_vector_def)

lemma update_vector_count:
  assumes "distinct (map chunk_id cs)" and "c \<in> set cs" and "chunk_id c = cid"
    and "vector c = None"
  shows "Suc (length (filter (\<lambda>c. vector c = None) (update_vector b cid cs)))
           = length (filter (\<lambda>c. vector c = None) cs)"
  using assms
proof (induction cs)
  case Nil
  then show ?case by simp
next
  case (Cons x xs)
  show ?case
  proof (cases "x = c")
    case True
    then have "cid \<notin> chunk_id ` set xs" using Cons.prems by auto
    then have "update_vector b cid xs = xs" by (rule update_vector_absent)
    then have "update_vector b cid (x # xs) = x\<lparr>vector := Some b\<rparr> # xs"
      using True Cons.prems by (simp add: update_vector_def)
    then show ?thesis using True Cons.prems by simp
  next
    case False
    then have in_xs: "c \<in> set xs" using Cons.prems by simp
    then have "chunk_id x \<noteq> cid" using Cons.prems by auto
    then have "update_vector b cid (x # xs) = x # update_vector b cid xs"
      by (simp add: update_vector_def)
    moreover have "Suc (length (filter (\<lambda>c. vector c = None) (update_vector b cid xs)))
           = length (filter (\<lambda>c. vector c = None) xs)"
      using Cons.IH in_xs Cons.prems by simp
    ultimately show ?thesis by simp
  qed
qed

lemma embed_rows_all:
  assumes "always_embeds e"
    and "distinct (map chunk_id cs)" and "distinct (map fst rows)"
    and "\<forall>r \<in> set rows. \<exists>c \<in> set cs. chunk_id c = fst r \<and> vector c = None"
  shows "\<exists>cs'. embed_rows e rows cs cnt = (cs', cnt + length rows)
           \<and> map chunk_id cs' = map chunk_id cs
           \<and> length (filter (\<lambda>c. vector c = None) cs') + length rows
                = length (filter (\<lambda>c. vector c = None) cs)"
  using assms(2-)
proof (induction rows arbitrary: cs cnt)
  case Nil
  then show ?case by simp
next
  case (Cons r rows)
  obtain cid t where r: "r = (cid, t)" by (cases r)
  let ?b = "pack (float32 e) (sentenceVectorDimension e)
              (the (sentenceEmbeddingVector e (embed_input t)))"
  let ?cs = "update_vector ?b cid cs"
  have acc: "accepted (sentenceVectorDimension e) (sentenceEmbeddingVector e (embed_input t))"
    using assms(1) by (simp add: always_embeds_def)
  have step: "embed_rows e (r # rows) cs cnt = embed_rows e rows ?cs (cnt + 1)"
    using acc by (simp add: r)
  obtain c where c: "c \<in> set cs" "chunk_id c = cid" "vector c = None"
    using Cons.prems(3) r by auto
  have d1: "distinct (map chunk_id ?cs)"
    using Cons.prems(1) by (simp add: update_vector_ids)
  have d2: "distinct (map fst rows)" using Cons.prems(2) by simp
  have rest: "\<forall>r' \<in> set rows. \<exists>c \<in> set ?cs. chunk_id c = fst r' \<and> vector c = None"
  proof
    fix r' assume r': "r' \<in> set rows"
    then obtain c' where c': "c' \<in> set cs" "chunk_id c' = fst r'" "vector c' = None"
      using Cons.prems(3) by auto
    have "fst r' \<noteq> cid" using Cons.prems(2) r r' by auto
    then have "c' \<in> set ?cs" using c' by (simp add: update_vector_other)
    then show "\<exists>c \<in> set ?cs. chunk_id c = fst r' \<and> vector c = None"
      using c' by blast
  qed
  from Cons.IH [OF d1 d2 rest, of "cnt + 1"]
  obtain cs' where cs': "embed_rows e rows ?cs (cnt + 1) = (cs', cnt + 1 + length rows)"
    "map chunk_id cs' = map chunk_id ?cs"
    "length (filter (\<lambda>c. vector c = None) cs') + length rows
       = length (filter (\<lambda>c. vector c = None) ?cs)"
    by blast
  have "Suc (length (filter (\<lambda>c. vector c = None) ?cs))
          = length (filter (\<lambda>c. vector c = None) cs)"
    using Cons.prems(1) c by (rule update_vector_count)
  then show ?case
    using cs' step by (simp add: update_vector_ids)
qed

lemma select_unembedded_props:
  assumes "distinct (map chunk_id cs)"
  shows "distinct (map fst (select_unembedded limit cs))"
    and "\<forall>r \<in> set (select_unembedded limit cs). \<exists>c \<in> set cs. chunk_id c = fst r \<and> vector c = None"
    and "length (select_unembedded limit cs)
           = min limit (length (filter (\<lambda>c. vector c = None) cs))"
proof -
  have "map fst (select_unembedded limit cs)
          = take limit (map chunk_id (filter (\<lambda>c. vector c = None) cs))"
    by (simp add: select_unembedded_def take_map comp_def)
  then show "distinct (map fst (select_unembedded limit cs))"
    using assms by (simp add: distinct_map_filter)
  show "\<forall>r \<in> set (select_unembedded limit cs). \<exists>c \<in> set cs. chunk_id c = fst r \<and> vector c = None"
    by (auto simp: select_unembedded_def dest!: in_set_takeD)
  show "length (select_unembedded limit cs)
           = min limit (length (filter (\<lambda>c. vector c = None) cs))"
    by (simp add: select_unembedded_def min.commute)
qed

lemma worker_script_all:
  assumes "always_embeds e" and "distinct (map chunk_id (chunks db))"
  shows "\<exists>db'. worker_script e limit db
             = (Completed 0 (Counts (int (min limit (count_unembedded db)))
                                    (int (min limit (count_unembedded db)))), db')
           \<and> map chunk_id (chunks db') = map chunk_id (chunks db)
           \<and> count_unembedded db' = count_unembedded db - min limit (count_unembedded db)"
proof -
  let ?rows = "select_unembedded limit (chunks db)"
  note sel = select_unembedded_props [OF assms(2), of limit]
  from embed_rows_all [OF assms(1) assms(2) sel(1) sel(2), of 0]
  obtain cs' where cs': "embed_rows e ?rows (chunks db) 0 = (cs', length ?rows)"
    "map chunk_id cs' = map chunk_id (chunks db)"
    "length (filter (\<lambda>c. vector c = None) cs') + length ?rows
       = length (filter (\<lambda>c. vector c = None) (chunks db))"
    by auto
  have "load_ok e" using assms(1) by (simp add: always_embeds_def)
  then have "worker_script e limit db
      = (Completed 0 (Counts (int (length ?rows)) (int (length ?rows))), db\<lparr>chunks := cs'\<rparr>)"
    using cs'(1) by (simp add: worker_script_def Let_def)
  then show ?thesis
    using cs'(2,3) sel(3) by (simp add: count_unembedded_def)
qed

lemma ceil_step:
  fixes n :: nat
  assumes "0 < n"
  shows "(n - min 2000 n + 1999) div 2000 + 1 = (n + 1999) div 2000"
proof (cases "n \<le> 2000")
  case True
  then show ?thesis using assms by simp
next
  case False
  then have "n - min 2000 n + 1999 + 2000 = n + 1999" by simp
  then have "(n + 1999) div 2000 = (n - min 2000 n + 1999 + 2000) div 2000" by simp
  also have "\<dots> = (n - min 2000 n + 1999) div 2000 + 1" by simp
  finally show ?thesis by simp
qed

lemma drain_loop:
  assumes "always_embeds e" and "\<forall>k. fates k = Completes"
    and "distinct (map chunk_id (chunks db))"
    and "n_done s + int (count_unembedded db) = tot"
  shows "if (count_unembedded db + 1999) div 2000 \<le> fuel
         then \<exists>s' db'. main_loop fuel e fates tot db s = Some (Finished Stopped s' db')
                \<and> dispatched s' = dispatched s + (count_unembedded db + 1999) div 2000
                \<and> slept s' = slept s
                \<and> n_done s' = tot \<and> count_unembedded db' = 0
         else main_loop fuel e fates tot db s = None"
  using assms(3,4)
proof (induction fuel arbitrary: s db)
  case 0
  then show ?case by (cases "count_unembedded db = 0") auto
next
  case (Suc fuel)
  let ?n = "count_unembedded db"
  show ?case
  proof (cases "?n = 0")
    case True
    then show ?thesis using Suc.prems by auto
  next
    case False
    let ?m = "min 2000 ?n"
    obtain db1 where w: "worker_script e BATCH_SIZE db
             = (Completed 0 (Counts (int ?m) (int ?m)), db1)"
        and ids: "map chunk_id (chunks db1) = map chunk_id (chunks db)"
        and cnt: "count_unembedded db1 = ?n - ?m"
      using worker_script_all [OF assms(1) Suc.prems(1), of BATCH_SIZE]
      by (auto simp: BATCH_SIZE_def)
    let ?s1 = "s\<lparr>dispatched := dispatched s + 1, retries := 0, n_done := n_done s + int ?m\<rparr>"
    have lt: "n_done s < tot" using False Suc.prems(2) by simp
    have step: "main_loop (Suc fuel) e fates tot db s = main_loop fuel e fates tot db1 ?s1"
    proof -
      have m0: "(?m = 0) = False" using False by (simp add: min_def)
      show ?thesis
        using lt w assms(2) by (simp add: spawn_worker_def loop_body_def Let_def m0)
    qed
    have d1: "distinct (map chunk_id (chunks db1))" using ids Suc.prems(1) by simp
    have inv: "n_done ?s1 + int (count_unembedded db1) = tot"
      using cnt Suc.prems(2) by simp
    have c: "(count_unembedded db1 + 1999) div 2000 + 1 = (?n + 1999) div 2000"
      unfolding cnt using False by (intro ceil_step) simp
    show ?thesis
    proof (cases "(?n + 1999) div 2000 \<le> Suc fuel")
      case True
      then have "(count_unembedded db1 + 1999) div 2000 \<le> fuel" using c by simp
      with Suc.IH [OF d1 inv]
      obtain s' db' where r: "main_loop fuel e fates tot db1 ?s1 = Some (Finished Stopped s' db')"
         "dispatched s' = dispatched ?s1 + (count_unembedded db1 + 1999) div 2000"
         "slept s' = slept ?s1"
         "n_done s' = tot" "count_unembedded db' = 0"
        by auto
      have "dispatched s' = dispatched s + (?n + 1999) div 2000"
        using r(2) c by simp
      moreover have "slept s' = slept s" using r(3) by simp
      ultimately show ?thesis using True step r(1,4,5) by auto
    next
      case False
      then have "\<not> (count_unembedded db1 + 1999) div 2000 \<le> fuel" using c by simp
      with Suc.IH [OF d1 inv] have "main_loop fuel e fates tot db1 ?s1 = None" by simp
      then show ?thesis using False step by simp
    qed
  qed
qed

text \<open>
  Claim C4. The store holds \<open>n\<close> chunks without a vector (and, as its primary key demands,
  no two chunks with the same id), every worker runs to completion and the embedding
  capability always succeeds. Then every worker reports
  \<open>embedded = processed = min(BATCH_SIZE, remaining)\<close>, and the orchestrator reaches
  Stopped after exactly \<open>ceil(n / BATCH_SIZE)\<close> dispatch cycles, with nothing left to
  embed and without sleeping: any bound on the dispatches of at least that many lets it
  finish.
\<close>

theorem orchestrator_termination:
  assumes "always_embeds e" and "\<forall>k. fates k = Completes"
    and "distinct (map chunk_id (chunks db))"
    and "nat \<lceil>real (count_unembedded db) / real BATCH_SIZE\<rceil> \<le> fuel"
  shows "\<exists>s' db'. main fuel e fates db = Some (Finished Stopped s' db')
           \<and> dispatched s' = nat \<lceil>real (count_unembedded db) / real BATCH_SIZE\<rceil>
           \<and> slept s' = 0
           \<and> n_done s' = int (count_unembedded db)
           \<and> count_unembedded db' = 0"
proof -
  let ?n = "count_unembedded db"
  have ceil: "nat \<lceil>real ?n / real BATCH_SIZE\<rceil> = (?n + 1999) div 2000"
    unfolding BATCH_SIZE_def by linarith
  show ?thesis
  proof (cases "?n = 0")
    case True
    then show ?thesis by (simp add: main_def initial_def)
  next
    case False
    have inv: "n_done initial + int ?n = int ?n" by (simp add: initial_def)
    have le: "(?n + 1999) div 2000 \<le> fuel" using assms(4) ceil by simp
    from drain_loop [OF assms(1,2,3) inv, of fuel] le
    obtain s' db' where
      "main_loop fuel e fates (int ?n) db initial = Some (Finished Stopped s' db')"
      "dispatched s' = dispatched initial + (?n + 1999) div 2000"
      "slept s' = slept initial" "n_done s' = int ?n" "count_unembedded db' = 0"
      by auto
    then show ?thesis using False ceil by (simp add: main_def initial_def)
  qed
qed

theorem orchestrator_termination_witness:
  "\<exists>s' db'. main 1 working_embedder (\<lambda>k. Completes) example_db
               = Some (Finished Stopped s' db')
           \<and> dispatched s' = 1 \<and> slept s' = 0 \<and> n_done s' = 1
           \<and> count_unembedded db' = 0"
proof -
  have n: "count_unembedded example_db = 1"
    by (simp add: count_unembedded_def example_db_def example_chunk_def)
  have h1: "always_embeds working_embedder"
    by (simp add: always_embeds_def working_embedder_def accepted_def)
  have h2: "\<forall>k. (\<lambda>k. Completes) k = Completes" by simp
  have h3: "distinct (map chunk_id (chunks example_db))"
    by (simp add: example_db_def)
  have c: "nat \<lceil>real (count_unembedded example_db) / real BATCH_SIZE\<rceil> = 1"
    unfolding n BATCH_SIZE_def by linarith
  have h4: "nat \<lceil>real (count_unembedded example_db) / real BATCH_SIZE\<rceil> \<le> 1"
    using c by simp
  show ?thesis
    using orchestrator_termination [OF h1 h2 h3 h4, unfolded c] n by simp
qed

subsection \<open>Chunks that can never be embedded\<close>

lemma embed_rows_none:
  assumes "never_embeds e"
  shows "embed_rows e rows cs cnt = (cs, cnt)"
  using assms by (induction rows arbitrary: cnt) (auto simp: never_embeds_def)

lemma worker_script_none:
  assumes "never_embeds e"
  shows "worker_script e limit db =
           (Completed 0 (Counts 0 (int (min limit (count_unembedded db)))), db)"
  using assms
  by (simp add: worker_script_def embed_rows_none never_embeds_def select_unembedded_def
      count_unembedded_def min.commute)

lemma never_embeds_loop:
  assumes "never_embeds e" and "\<forall>k. fates k = Completes"
    and "count_unembedded db \<noteq> 0" and "n_done s < tot"
  shows "main_loop fuel e fates tot db s = None"
  using assms(4)
proof (induction fuel arbitrary: s)
  case 0
  then show ?case by simp
next
  case (Suc fuel)
  have m0: "(min 2000 (count_unembedded db) = 0) = False"
    using assms(3) by (simp add: min_def)
  let ?s1 = "s\<lparr>dispatched := dispatched s + 1, retries := 0, n_done := n_done s + 0\<rparr>"
  have "main_loop (Suc fuel) e fates tot db s = main_loop fuel e fates tot db ?s1"
    using Suc.prems assms(2)
    by (simp add: spawn_worker_def worker_script_none [OF assms(1)] loop_body_def
        BATCH_SIZE_def m0)
  moreover have "main_loop fuel e fates tot db ?s1 = None"
    using Suc.prems by (intro Suc.IH) simp
  ultimately show ?case by simp
qed

lemma never_embeds_main:
  assumes "never_embeds e" and "\<forall>k. fates k = Completes"
    and "count_unembedded db \<noteq> 0"
  shows "main fuel e fates db = None"
  using assms by (simp add: main_def never_embeds_loop initial_def)

text \<open>
  Claim C5 at a concrete run. The store has one chunk to embed, every worker runs to
  completion and the embedding capability returns no vector for it: each worker reports
  \<open>processed = 1\<close> and \<open>embedded = 0\<close>, the counter of embedded chunks stays below the
  total, and the orchestrator dispatches again. No bound on the number of dispatches lets
  it reach a terminal state.
\<close>

theorem unembeddable_chunk_never_stops:
  "main fuel mute_embedder (\<lambda>k. Completes) example_db = None
   \<and> fst (worker_script mute_embedder BATCH_SIZE example_db) = Completed 0 (Counts 0 1)"
proof
  have h: "never_embeds mute_embedder"
    by (simp add: never_embeds_def mute_embedder_def accepted_def)
  have n: "count_unembedded example_db \<noteq> 0"
    by (simp add: count_unembedded_def example_db_def example_chunk_def)
  show "main fuel mute_embedder (\<lambda>k. Completes) example_db = None"
    using h n by (intro never_embeds_main) simp_all
  show "fst (worker_script mute_embedder BATCH_SIZE example_db) = Completed 0 (Counts 0 1)"
    by (simp add: worker_script_none [OF h] BATCH_SIZE_def count_unembedded_def
        example_db_def example_chunk_def)
qed

section \<open>Verification of the worker\<close>

subsection \<open>The guard on a vector write\<close>

lemma pack_accepted: "accepted d (Some v) \<Longrightarrow> pack f32 d v = map f32 v"
proof -
  assume "accepted d (Some v)"
  then have d: "d = length v" by (simp add: accepted_def)
  have "map f32 v = map f32 (map (\<lambda>i. v ! i) [0..<length v])" by (simp only: map_nth)
  then show ?thesis unfolding d pack_def by (simp add: comp_def)
qed

lemma embed_rows_single:
  "embed_rows e [(cid, t)] cs cnt =
     (case sentenceEmbeddingVector e (embed_input t) of
        None \<Rightarrow> (cs, cnt)
      | Some v \<Rightarrow>
          if v \<noteq> [] \<and> length v = sentenceVectorDimension e
          then (update_vector (map (float32 e) v) cid cs, cnt + 1) else (cs, cnt))"
proof (cases "sentenceEmbeddingVector e (embed_input t)")
  case None
  then show ?thesis by (simp add: accepted_def)
next
  case (Some v)
  show ?thesis
  proof (cases "accepted (sentenceVectorDimension e) (Some v)")
    case True
    then show ?thesis
      using Some pack_accepted [OF True, of "float32 e"] by (simp add: accepted_def)
  next
    case False
    then show ?thesis using Some by (auto simp: accepted_def)
  qed
qed

lemma update_vector_vectors:
  "map vector (update_vector b cid cs)
     = map (\<lambda>c. if chunk_id c = cid then Some b else vector c) cs"
  by (induction cs) (simp_all add: update_vector_def)

lemma update_vector_columns:
  "map (\<lambda>c. (rowid c, chunk_id c, document_id c, ctext c)) (update_vector b cid cs)
     = map (\<lambda>c. (rowid c, chunk_id c, document_id c, ctext c)) cs"
  by (induction cs) (simp_all add: update_vector_def)

lemma update_vector_uniform:
  "uniform_dimension d cs \<Longrightarrow> length v = d \<Longrightarrow> uniform_dimension d (update_vector v cid cs)"
  by (induction cs) (auto simp: uniform_dimension_def update_vector_def)

lemma embed_rows_uniform:
  "uniform_dimension (sentenceVectorDimension e) cs \<Longrightarrow>
     uniform_dimension (sentenceVectorDimension e) (fst (embed_rows e rows cs cnt))"
proof (induction rows arbitrary: cs cnt)
  case Nil
  then show ?case by simp
next
  case (Cons r rows)
  obtain cid t where r: "r = (cid, t)" by (cases r)
  let ?vec = "sentenceEmbeddingVector e (embed_input t)"
  show ?case
  proof (cases "accepted (sentenceVectorDimension e) ?vec")
    case True
    then obtain v where v: "?vec = Some v" "length v = sentenceVectorDimension e"
      by (auto simp: accepted_def split: option.splits)
    have "pack (float32 e) (sentenceVectorDimension e) v = map (float32 e) v"
      using True v(1) by (simp add: pack_accepted)
    then have "uniform_dimension (sentenceVectorDimension e)
        (update_vector (pack (float32 e) (sentenceVectorDimension e) (the ?vec)) cid cs)"
      using Cons.prems v by (simp add: update_vector_uniform)
    from Cons.IH [OF this] show ?thesis using True by (simp add: r)
  next
    case False
    then show ?thesis using Cons.IH [OF Cons.prems] by (simp add: r)
  qed
qed

lemma worker_script_uniform:
  "uniform_dimension (sentenceVectorDimension e) (chunks db) \<Longrightarrow>
     uniform_dimension (sentenceVectorDimension e) (chunks (snd (worker_script e limit db)))"
  using embed_rows_uniform [of e "chunks db" "select_unembedded limit (chunks db)" 0]
  by (auto simp: worker_script_def Let_def split: prod.splits)

lemma worker_script_reports:
  "load_ok e \<Longrightarrow>
     fst (worker_script e limit db) =
       Completed 0 (Counts
         (int (snd (embed_rows e (select_unembedded limit (chunks db)) (chunks db) 0)))
         (int (length (select_unembedded limit (chunks db)))))"
  by (simp add: worker_script_def Let_def case_prod_beta)

text \<open>
  Claim C7, as the code has it. For a chunk the worker processes, the vector is written
  exactly when the capability returned one that is not empty and has the dimension the
  capability reports. What is then stored is the vector with every component converted to
  a single-precision float, in order and in the same number, neither truncated nor padded,
  and the chunk is counted. Otherwise the chunk rows are left as they were and nothing is
  counted. The update sets the vector of the rows with the given id and changes no other
  column and no other row; for an id that no chunk row has it changes nothing. A worker
  whose model loaded reports the two counters and exits with status 0: a vector that was
  not accepted is no error. The vectors already in the store are not consulted; what a
  worker run preserves is that all stored vectors have the dimension the capability
  reports, when they had before.
\<close>

theorem vector_write_guard:
  "embed_rows e [(cid, t)] cs cnt =
     (case sentenceEmbeddingVector e (embed_input t) of
        None \<Rightarrow> (cs, cnt)
      | Some v \<Rightarrow>
          if v \<noteq> [] \<and> length v = sentenceVectorDimension e
          then (update_vector (map (float32 e) v) cid cs, cnt + 1) else (cs, cnt))
   \<and> map vector (update_vector b cid cs)
       = map (\<lambda>c. if chunk_id c = cid then Some b else vector c) cs
   \<and> map (\<lambda>c. (rowid c, chunk_id c, document_id c, ctext c)) (update_vector b cid cs)
       = map (\<lambda>c. (rowid c, chunk_id c, document_id c, ctext c)) cs
   \<and> (cid' \<notin> chunk_id ` set cs \<longrightarrow> update_vector w cid' cs = cs)
   \<and> (load_ok e \<longrightarrow>
        fst (worker_script e limit db) =
          Completed 0 (Counts
            (int (snd (embed_rows e (select_unembedded limit (chunks db)) (chunks db) 0)))
            (int (length (select_unembedded limit (chunks db))))))
   \<and> (uniform_dimension (sentenceVectorDimension e) (chunks db) \<longrightarrow>
        uniform_dimension (sentenceVectorDimension e)
          (chunks (snd (worker_script e limit db))))"
  using embed_rows_single [of e cid t cs cnt] update_vector_absent [of cid' cs w]
    update_vector_vectors [of b cid cs] update_vector_columns [of b cid cs]
    worker_script_reports [of e limit db] worker_script_uniform [of e db limit]
  by (intro conjI impI) simp_all

theorem vector_write_guard_witness:
  "embed_rows rounding_embedder [(''c1'', ''hello'')] (chunks example_db) 0 =
     ([example_chunk\<lparr>vector := Some [16777216, 2]\<rparr>], 1)
   \<and> map vector (update_vector [16777216, 2] ''c1'' (chunks example_db)) = [Some [16777216, 2]]
   \<and> map (\<lambda>c. (rowid c, chunk_id c, document_id c, ctext c))
        (update_vector [16777216, 2] ''c1'' (chunks example_db)) = [(1, ''c1'', ''d1'', ''hello'')]
   \<and> update_vector [1, 2] ''absent'' (chunks example_db) = chunks example_db
   \<and> fst (worker_script rounding_embedder BATCH_SIZE example_db) = Completed 0 (Counts 1 1)
   \<and> uniform_dimension 2 (chunks (snd (worker_script rounding_embedder BATCH_SIZE example_db)))"
proof -
  have h1: "''absent'' \<notin> chunk_id ` set (chunks example_db)"
    by (simp add: example_db_def example_chunk_def)
  have h2: "uniform_dimension (sentenceVectorDimension rounding_embedder) (chunks example_db)"
    by (simp add: uniform_dimension_def example_db_def example_chunk_def)
  have h3: "load_ok rounding_embedder" by (simp add: rounding_embedder_def)
  have e1: "sentenceEmbeddingVector rounding_embedder (embed_input ''hello'') = Some [16777217, 2]"
    by (simp add: rounding_embedder_def)
  have e2: "update_vector [16777216, 2] ''c1'' (chunks example_db)
      = [example_chunk\<lparr>vector := Some [16777216, 2]\<rparr>]"
    by (simp add: update_vector_def example_db_def example_chunk_def)
  have e3: "select_unembedded BATCH_SIZE (chunks example_db) = [(''c1'', ''hello'')]"
    by (simp add: select_unembedded_def example_db_def example_chunk_def BATCH_SIZE_def)
  note t = vector_write_guard [of rounding_embedder "''c1''" "''hello''" "chunks example_db" 0
        "[16777216, 2]" "''absent''" "[1, 2]" BATCH_SIZE example_db]
  have c1: "embed_rows rounding_embedder [(''c1'', ''hello'')] (chunks example_db) 0 =
     ([example_chunk\<lparr>vector := Some [16777216, 2]\<rparr>], 1)"
    using t e1 e2 by (simp add: rounding_embedder_def)
  have c2: "map vector (update_vector [16777216, 2] ''c1'' (chunks example_db))
      = [Some [16777216, 2]]"
    using t by (simp add: example_db_def example_chunk_def)
  have c3: "map (\<lambda>c. (rowid c, chunk_id c, document_id c, ctext c))
        (update_vector [16777216, 2] ''c1'' (chunks example_db)) = [(1, ''c1'', ''d1'', ''hello'')]"
    using t by (simp add: example_db_def example_chunk_def)
  have c4: "update_vector [1, 2] ''absent'' (chunks example_db) = chunks example_db"
    using t h1 by blast
  have c5: "fst (worker_script rounding_embedder BATCH_SIZE example_db) = Completed 0 (Counts 1 1)"
    using t h3 c1 unfolding e3 by simp
  have c6: "uniform_dimension 2 (chunks (snd (worker_script rounding_embedder BATCH_SIZE example_db)))"
    using t h2 by (simp add: rounding_embedder_def)
  show ?thesis using c1 c2 c3 c4 c5 c6 by (intro conjI)
qed

text \<open>
  Claim C7 as stated fails. The store is consistent and already holds a vector of three
  components; the capability reports dimension 2 and returns two components. The worker
  writes the two-component vector beside the three-component one and reports one chunk
  embedded and no error. And an update for an id that no chunk has is not reported as an
  error: it leaves the rows as they are.
\<close>

theorem mixed_dimension_write_counterexample:
  "mset (chunks_fts mixed_db) = mset (map fts_key (chunks mixed_db))
  \<and> map rowid (chunks mixed_db) = [1, 2]
  \<and> worker_script working_embedder BATCH_SIZE mixed_db =
    (Completed 0 (Counts 1 1),
     mixed_db\<lparr>chunks := [\<lparr>rowid = 1, chunk_id = ''c0'', document_id = ''d1'', ctext = ''old'',
                vector = Some [7, 8, 9]\<rparr>,
               \<lparr>rowid = 2, chunk_id = ''c1'', document_id = ''d1'', ctext = ''hello'',
                vector = Some [1, 2]\<rparr>]\<rparr>)
  \<and> update_vector [1, 2] ''absent'' (chunks mixed_db) = chunks mixed_db"
proof (intro conjI)
  show "mset (chunks_fts mixed_db) = mset (map fts_key (chunks mixed_db))"
    by (simp add: mixed_db_def fts_key_def)
  show "map rowid (chunks mixed_db) = [1, 2]"
    by (simp add: mixed_db_def)
  show "worker_script working_embedder BATCH_SIZE mixed_db =
    (Completed 0 (Counts 1 1),
     mixed_db\<lparr>chunks := [\<lparr>rowid = 1, chunk_id = ''c0'', document_id = ''d1'', ctext = ''old'',
                vector = Some [7, 8, 9]\<rparr>,
               \<lparr>rowid = 2, chunk_id = ''c1'', document_id = ''d1'', ctext = ''hello'',
                vector = Some [1, 2]\<rparr>]\<rparr>)"
    by code_simp
  show "update_vector [1, 2] ''absent'' (chunks mixed_db) = chunks mixed_db"
    by code_simp
qed

subsection \<open>The text handed to the embedding capability\<close>

lemma update_vector_agree:
  "list_all2 agree_512 cs1 cs2 \<Longrightarrow>
     list_all2 agree_512 (update_vector b cid cs1) (update_vector b cid cs2)"
  by (induction rule: list_all2_induct) (auto simp: update_vector_def agree_512_def)

lemma embed_rows_agree:
  assumes "list_all2 (\<lambda>r1 r2. fst r1 = fst r2 \<and> take 512 (snd r1) = take 512 (snd r2)) rows1 rows2"
    and "list_all2 agree_512 cs1 cs2"
  shows "list_all2 agree_512 (fst (embed_rows e rows1 cs1 cnt)) (fst (embed_rows e rows2 cs2 cnt))
       \<and> snd (embed_rows e rows1 cs1 cnt) = snd (embed_rows e rows2 cs2 cnt)"
  using assms
proof (induction arbitrary: cs1 cs2 cnt rule: list_all2_induct)
  case Nil
  then show ?case by simp
next
  case (Cons r1 rows1 r2 rows2)
  obtain cid t1 where r1: "r1 = (cid, t1)" by (cases r1)
  obtain t2 where r2: "r2 = (cid, t2)" using Cons.hyps(1) r1 by (cases r2) auto
  have t: "embed_input t1 = embed_input t2"
    using Cons.hyps(1) r1 r2 by (simp add: embed_input_def)
  show ?case
    unfolding r1 r2
    using Cons.IH Cons.prems update_vector_agree [OF Cons.prems]
    by (simp add: t Let_def)
qed

lemma select_unembedded_agree:
  assumes "list_all2 agree_512 cs1 cs2"
  shows "list_all2 (\<lambda>r1 r2. fst r1 = fst r2 \<and> take 512 (snd r1) = take 512 (snd r2))
           (select_unembedded limit cs1) (select_unembedded limit cs2)"
proof -
  have "list_all2 (\<lambda>r1 r2. fst r1 = fst r2 \<and> take 512 (snd r1) = take 512 (snd r2))
           (map (\<lambda>c. (chunk_id c, ctext c)) (filter (\<lambda>c. vector c = None) cs1))
           (map (\<lambda>c. (chunk_id c, ctext c)) (filter (\<lambda>c. vector c = None) cs2))"
    using assms
    by (induction rule: list_all2_induct) (auto simp: agree_512_def)
  then show ?thesis
    unfolding select_unembedded_def by (rule list_all2_takeI)
qed

lemma worker_script_agree:
  assumes "list_all2 agree_512 (chunks db1) (chunks db2)"
  shows "fst (worker_script e limit db1) = fst (worker_script e limit db2)
       \<and> list_all2 agree_512 (chunks (snd (worker_script e limit db1)))
            (chunks (snd (worker_script e limit db2)))"
proof (cases "load_ok e")
  case False
  then show ?thesis using assms by (simp add: worker_script_def)
next
  case True
  note sel = select_unembedded_agree [OF assms, of limit]
  note er = embed_rows_agree [OF sel assms, of e 0]
  have "length (select_unembedded limit (chunks db1)) = length (select_unembedded limit (chunks db2))"
    using sel by (rule list_all2_lengthD)
  then show ?thesis
    using True er by (auto simp: worker_script_def Let_def split: prod.splits)
qed

text \<open>
  Claim C9. The string the worker submits to the embedding capability is the first 512
  characters of the chunk's text (the whole text when it is shorter). Two texts that agree
  on their first 512 characters give the same submitted string, and two stores whose chunk
  rows agree up to the text after position 512 get the same worker result and the same
  stored vectors, whatever the capability computes.
\<close>

theorem embedding_reads_first_512:
  "embed_input t = take 512 t \<and> length (embed_input t) \<le> 512
   \<and> (take 512 t1 = take 512 t2 \<longrightarrow> embed_input t1 = embed_input t2)
   \<and> (list_all2 agree_512 (chunks db1) (chunks db2) \<longrightarrow>
        fst (worker_script e limit db1) = fst (worker_script e limit db2)
        \<and> list_all2 agree_512 (chunks (snd (worker_script e limit db1)))
             (chunks (snd (worker_script e limit db2))))"
  using worker_script_agree [of db1 db2 e limit]
  by (simp add: embed_input_def)

theorem embedding_reads_first_512_witness:
  "embed_input (replicate 512 (CHR ''a'') @ ''xyz'')
     = embed_input (replicate 512 (CHR ''a'') @ ''other'')
   \<and> fst (worker_script length_embedder BATCH_SIZE (long_db ''xyz''))
     = fst (worker_script length_embedder BATCH_SIZE (long_db ''other''))
   \<and> list_all2 agree_512
       (chunks (snd (worker_script length_embedder BATCH_SIZE (long_db ''xyz''))))
       (chunks (snd (worker_script length_embedder BATCH_SIZE (long_db ''other''))))"
proof -
  have h1: "take 512 (replicate 512 (CHR ''a'') @ ''xyz'')
      = take 512 (replicate 512 (CHR ''a'') @ ''other'')"
    by simp
  have h2: "list_all2 agree_512 (chunks (long_db ''xyz'')) (chunks (long_db ''other''))"
    by (simp add: long_db_def agree_512_def example_chunk_def)
  show ?thesis
    using embedding_reads_first_512 [of "replicate 512 (CHR ''a'') @ ''xyz''"
        "replicate 512 (CHR ''a'') @ ''xyz''" "replicate 512 (CHR ''a'') @ ''other''"
        "long_db ''xyz''" "long_db ''other''" length_embedder BATCH_SIZE] h1 h2
    by blast
qed

section \<open>Verification of the store\<close>

lemma consistent_init_db: "consistent init_db"
  by (simp add: consistent_def fts_in_sync_def no_orphans_def init_db_def)

lemma insert_document_consistent:
  assumes "consistent conn" and "insert_document conn did fname now stype spath smod = Inr conn'"
  shows "consistent conn'"
  using assms
  by (auto simp: insert_document_def consistent_def fts_in_sync_def no_orphans_def
      list_all_iff split: if_splits)

lemma insert_chunk_consistent:
  assumes "consistent conn" and "insert_chunk conn cid did t = Inr conn'"
  shows "consistent conn'"
  using assms
  by (auto simp: insert_chunk_def chunks_ai_def consistent_def fts_in_sync_def no_orphans_def
      fts_key_def Let_def list_all_iff split: if_splits)

lemma update_vector_keys: "map fts_key (update_vector b cid cs) = map fts_key cs"
  by (induction cs) (simp_all add: update_vector_def fts_key_def)

lemma update_vector_document_ids:
  "map document_id (update_vector b cid cs) = map document_id cs"
  by (induction cs) (simp_all add: update_vector_def)

lemma no_orphans_iff:
  "no_orphans conn = (set (map document_id (chunks conn)) \<subseteq> set (map doc_id (documents conn)))"
  by (auto simp: no_orphans_def list_all_iff)

lemma write_vector_consistent:
  assumes "consistent conn"
  shows "consistent (conn\<lparr>chunks := update_vector b cid (chunks conn)\<rparr>)"
  using assms
  by (simp add: consistent_def fts_in_sync_def no_orphans_iff update_vector_keys
      update_vector_document_ids)

lemma fold_chunks_ad:
  "documents (fold chunks_ad gs conn) = documents conn
   \<and> chunks (fold chunks_ad gs conn) = chunks conn
   \<and> mset (chunks_fts (fold chunks_ad gs conn))
       = mset (chunks_fts conn) - mset (map fts_key gs)"
  by (induction gs arbitrary: conn) (simp_all add: chunks_ad_def fts_key_def)

lemma delete_document_tables:
  "documents (delete_document did conn) = filter (\<lambda>d. doc_id d \<noteq> did) (documents conn)
   \<and> chunks (delete_document did conn) = filter (\<lambda>c. document_id c \<noteq> did) (chunks conn)"
  by (simp add: delete_document_def fold_chunks_ad)

lemma mset_map_partition:
  "mset (map f xs) = mset (map f (filter P xs)) + mset (map f (filter (\<lambda>x. \<not> P x) xs))"
  by (induction xs) simp_all

lemma delete_document_fts:
  assumes "fts_in_sync conn"
  shows "fts_in_sync (delete_document did conn)"
proof -
  let ?gone = "filter (\<lambda>c. document_id c = did) (chunks conn)"
  let ?rest = "filter (\<lambda>c. document_id c \<noteq> did) (chunks conn)"
  have part: "mset (map fts_key (chunks conn)) = mset (map fts_key ?gone) + mset (map fts_key ?rest)"
    by (rule mset_map_partition)
  have "mset (chunks_fts (delete_document did conn))
          = mset (chunks_fts conn) - mset (map fts_key ?gone)"
    by (simp add: delete_document_def fold_chunks_ad)
  also have "\<dots> = mset (map fts_key ?rest)"
    using assms part by (simp add: fts_in_sync_def)
  finally show ?thesis
    by (simp add: fts_in_sync_def delete_document_tables)
qed

lemma delete_document_consistent:
  assumes "consistent conn"
  shows "consistent (delete_document did conn)"
proof -
  have "no_orphans (delete_document did conn)"
    using assms
    by (auto simp: consistent_def no_orphans_def list_all_iff delete_document_tables)
  then show ?thesis
    using assms delete_document_fts [of conn did] by (simp add: consistent_def)
qed

lemma run_op_consistent:
  assumes "consistent conn" and "run_op op conn = Inr conn'"
  shows "consistent conn'"
proof (cases op)
  case (Insert_document did fname now stype spath smod)
  then show ?thesis using assms by (auto intro: insert_document_consistent)
next
  case (Insert_chunk cid did t)
  then show ?thesis using assms by (auto intro: insert_chunk_consistent)
next
  case (Write_vector blob cid)
  then show ?thesis using assms by (auto intro: write_vector_consistent)
next
  case (Delete_document did)
  then show ?thesis using assms by (auto intro: delete_document_consistent)
qed

lemma embed_rows_keys:
  "map fts_key (fst (embed_rows e rows cs cnt)) = map fts_key cs
   \<and> map document_id (fst (embed_rows e rows cs cnt)) = map document_id cs"
proof (induction rows arbitrary: cs cnt)
  case Nil
  then show ?case by simp
next
  case (Cons r rows)
  obtain cid t where r: "r = (cid, t)" by (cases r)
  show ?case
    unfolding r using Cons.IH
    by (simp add: Let_def update_vector_keys update_vector_document_ids)
qed

lemma worker_script_consistent:
  assumes "consistent conn"
  shows "consistent (snd (worker_script e limit conn))"
proof (cases "load_ok e")
  case False
  then show ?thesis using assms by (simp add: worker_script_def)
next
  case True
  let ?r = "embed_rows e (select_unembedded limit (chunks conn)) (chunks conn) 0"
  have snd_eq: "snd (worker_script e limit conn) = conn\<lparr>chunks := fst ?r\<rparr>"
    using True by (simp add: worker_script_def Let_def case_prod_beta)
  have k: "map fts_key (fst ?r) = map fts_key (chunks conn)"
    and d: "map document_id (fst ?r) = map document_id (chunks conn)"
    using embed_rows_keys [of e "select_unembedded limit (chunks conn)" "chunks conn" 0]
    by simp_all
  have "mset (map fts_key (fst ?r)) = mset (map fts_key (chunks conn))" by (simp only: k)
  then have "fts_in_sync (conn\<lparr>chunks := fst ?r\<rparr>)"
    using assms by (simp add: consistent_def fts_in_sync_def)
  moreover have "set (map document_id (fst ?r)) = set (map document_id (chunks conn))"
    by (simp only: d)
  then have "no_orphans (conn\<lparr>chunks := fst ?r\<rparr>)"
    using assms by (simp add: consistent_def no_orphans_iff)
  ultimately show ?thesis unfolding snd_eq consistent_def by simp
qed

lemma insert_chunks_consistent:
  assumes "consistent conn" and "insert_chunks env k conn ts did = Inr (conn', k')"
  shows "consistent conn'"
  using assms
proof (induction ts arbitrary: conn k)
  case Nil
  then show ?case by simp
next
  case (Cons t ts)
  then show ?case
    by (auto split: sum.splits dest: insert_chunk_consistent)
qed

lemma store_document_consistent:
  assumes "consistent conn"
    and "store_document env k conn fname stype spath smod cks = Inr (conn', k')"
  shows "consistent conn'"
  using assms
  by (auto simp: store_document_def split: sum.splits
      dest: insert_document_consistent insert_chunks_consistent)

lemma consistent_example_db: "consistent example_db"
  by (simp add: consistent_def fts_in_sync_def no_orphans_def example_db_def example_chunk_def
      example_document_def fts_key_def)

text \<open>
  Claim C8. The store after \<^verbatim>\<open>init_db\<close> is consistent: the entries of the full-text index
  are, one for one, the (rowid, text) pairs of the chunk rows, and every chunk references a
  document. Every statement on the store that succeeds keeps it so: the insert of a
  document, the insert of a chunk with its trigger, the write of a vector, the delete of a
  document; so do a run of the worker and the importers' insert of a document with its
  chunks. The delete of a document is one statement: it leaves exactly the documents with
  another id, exactly the chunks of other documents, and exactly the index entries of those
  chunks.
\<close>

theorem cascade_integrity:
  "consistent (init_db :: 'a store)
   \<and> (consistent conn \<and> run_op op conn = Inr conn' \<longrightarrow> consistent conn')
   \<and> (consistent conn \<longrightarrow> consistent (snd (worker_script e limit conn)))
   \<and> (consistent conn \<and> store_document env k conn fname stype spath smod cks = Inr (conn'', k')
        \<longrightarrow> consistent conn'')
   \<and> (consistent conn \<longrightarrow>
        consistent (delete_document did conn)
        \<and> documents (delete_document did conn) = filter (\<lambda>d. doc_id d \<noteq> did) (documents conn)
        \<and> chunks (delete_document did conn)
            = filter (\<lambda>c. document_id c \<noteq> did) (chunks conn)
        \<and> mset (chunks_fts (delete_document did conn))
            = mset (map fts_key (filter (\<lambda>c. document_id c \<noteq> did) (chunks conn))))"
proof (intro conjI impI)
  show "consistent (init_db :: 'a store)" by (rule consistent_init_db)
next
  assume "consistent conn \<and> run_op op conn = Inr conn'"
  then show "consistent conn'" using run_op_consistent by blast
next
  assume "consistent conn"
  then show "consistent (snd (worker_script e limit conn))" by (rule worker_script_consistent)
next
  assume "consistent conn \<and> store_document env k conn fname stype spath smod cks = Inr (conn'', k')"
  then show "consistent conn''" using store_document_consistent by blast
next
  assume c: "consistent conn"
  then show "consistent (delete_document did conn)" by (rule delete_document_consistent)
  show "documents (delete_document did conn) = filter (\<lambda>d. doc_id d \<noteq> did) (documents conn)"
    by (simp add: delete_document_tables)
  show "chunks (delete_document did conn) = filter (\<lambda>c. document_id c \<noteq> did) (chunks conn)"
    by (simp add: delete_document_tables)
  have "fts_in_sync (delete_document did conn)"
    using c delete_document_fts [of conn did] by (simp add: consistent_def)
  then show "mset (chunks_fts (delete_document did conn))
            = mset (map fts_key (filter (\<lambda>c. document_id c \<noteq> did) (chunks conn)))"
    by (simp add: fts_in_sync_def delete_document_tables)
qed

theorem cascade_integrity_witness:
  "consistent example_db
   \<and> run_op (Delete_document ''d1'') example_db = Inr (init_db :: int store)
   \<and> consistent (init_db :: int store)
   \<and> consistent (snd (worker_script working_embedder BATCH_SIZE example_db))
   \<and> store_document example_env 0 example_db ''f'' ''file'' None None [''x'']
        = Inr (example_db\<lparr>documents := [example_document,
                  \<lparr>doc_id = ''u'', filename = ''f'', import_date = 0, source_type = ''file'',
                    source_path = None, source_mod_date = None\<rparr>],
               chunks := [example_chunk,
                  \<lparr>rowid = 2, chunk_id = ''uu'', document_id = ''u'', ctext = ''x'',
                    vector = None\<rparr>],
               chunks_fts := [(1, ''hello''), (2, ''x'')]\<rparr>, 2)
   \<and> consistent (example_db\<lparr>documents := [example_document,
                  \<lparr>doc_id = ''u'', filename = ''f'', import_date = 0, source_type = ''file'',
                    source_path = None, source_mod_date = None\<rparr>],
               chunks := [example_chunk,
                  \<lparr>rowid = 2, chunk_id = ''uu'', document_id = ''u'', ctext = ''x'',
                    vector = None\<rparr>],
               chunks_fts := [(1, ''hello''), (2, ''x'')]\<rparr>)
   \<and> chunks (delete_document ''d1'' example_db) = []
   \<and> chunks_fts (delete_document ''d1'' example_db) = []"
proof -
  let ?db2 = "example_db\<lparr>documents := [example_document,
                  \<lparr>doc_id = ''u'', filename = ''f'', import_date = 0, source_type = ''file'',
                    source_path = None, source_mod_date = None\<rparr>],
               chunks := [example_chunk,
                  \<lparr>rowid = 2, chunk_id = ''uu'', document_id = ''u'', ctext = ''x'',
                    vector = None\<rparr>],
               chunks_fts := [(1, ''hello''), (2, ''x'')]\<rparr>"
  have h1: "consistent example_db" by (rule consistent_example_db)
  have h2: "run_op (Delete_document ''d1'') example_db = Inr (init_db :: int store)"
    by (simp add: delete_document_def example_db_def example_chunk_def example_document_def
        chunks_ad_def init_db_def)
  have h3: "store_document example_env 0 example_db ''f'' ''file'' None None [''x''] = Inr (?db2, 2)"
    by (simp add: store_document_def insert_document_def insert_chunk_def chunks_ai_def
        next_rowid_def example_env_def example_db_def example_chunk_def example_document_def
        Let_def)
  have d: "delete_document ''d1'' example_db = init_db" using h2 by simp
  note t = cascade_integrity [of example_db "Delete_document ''d1''" init_db working_embedder
        BATCH_SIZE example_env 0 "''f''" "''file''" None None "[''x'']" ?db2 2 "''d1''"]
  have c1: "consistent (init_db :: int store)" using t by blast
  have c2: "consistent (snd (worker_script working_embedder BATCH_SIZE example_db))"
    using t h1 by blast
  have c3: "consistent ?db2" using t h1 h3 by blast
  have e1: "chunks (delete_document ''d1'' example_db) = []"
    unfolding d by (simp add: init_db_def)
  have e2: "chunks_fts (delete_document ''d1'' example_db) = []"
    unfolding d by (simp add: init_db_def)
  show ?thesis
    using h1 h2 c1 c2 h3 c3 e1 e2 by (intro conjI)
qed

section \<open>Verification of the importers\<close>

subsection \<open>Fresh ids make the inserts succeed\<close>

lemma fresh_from_mono: "fresh_from env k conn \<Longrightarrow> k \<le> k' \<Longrightarrow> fresh_from env k' conn"
  by (auto simp: fresh_from_def)

lemma insert_chunk_fresh:
  assumes "fresh_from env k conn" and "did \<in> set (map doc_id (documents conn))"
  shows "\<exists>c. insert_chunk conn (uuid4 env k) did t = Inr (chunks_ai c (conn\<lparr>chunks := chunks conn @ [c]\<rparr>))
           \<and> chunk_id c = uuid4 env k \<and> document_id c = did \<and> ctext c = t \<and> vector c = None
           \<and> fresh_from env (k + 1) (chunks_ai c (conn\<lparr>chunks := chunks conn @ [c]\<rparr>))"
proof -
  let ?c = "\<lparr>rowid = next_rowid (chunks conn), chunk_id = uuid4 env k, document_id = did,
             ctext = t, vector = None\<rparr>"
  have "uuid4 env k \<notin> set (map chunk_id (chunks conn))"
    using assms(1) by (simp add: fresh_from_def)
  then have "insert_chunk conn (uuid4 env k) did t
      = Inr (chunks_ai ?c (conn\<lparr>chunks := chunks conn @ [?c]\<rparr>))"
    using assms(2) by (simp add: insert_chunk_def Let_def)
  moreover have "fresh_from env (k + 1) (chunks_ai ?c (conn\<lparr>chunks := chunks conn @ [?c]\<rparr>))"
    using assms(1) by (auto simp: fresh_from_def chunks_ai_def dest: injD)
  ultimately show ?thesis by (intro exI [of _ ?c]) simp
qed

lemma insert_chunks_fresh:
  assumes "fresh_from env k conn" and "did \<in> set (map doc_id (documents conn))"
  shows "\<exists>conn' new. insert_chunks env k conn ts did = Inr (conn', k + length ts)
           \<and> documents conn' = documents conn
           \<and> chunks conn' = chunks conn @ new
           \<and> chunks_fts conn' = chunks_fts conn @ map fts_key new
           \<and> map ctext new = ts
           \<and> list_all (\<lambda>c. document_id c = did \<and> vector c = None) new
           \<and> fresh_from env (k + length ts) conn'"
  using assms
proof (induction ts arbitrary: k conn)
  case Nil
  then show ?case by simp
next
  case (Cons t ts)
  from insert_chunk_fresh [OF Cons.prems, of t]
  obtain c where c: "insert_chunk conn (uuid4 env k) did t
        = Inr (chunks_ai c (conn\<lparr>chunks := chunks conn @ [c]\<rparr>))"
      "document_id c = did" "ctext c = t" "vector c = None"
      "fresh_from env (k + 1) (chunks_ai c (conn\<lparr>chunks := chunks conn @ [c]\<rparr>))"
    by blast
  let ?conn1 = "chunks_ai c (conn\<lparr>chunks := chunks conn @ [c]\<rparr>)"
  have d: "did \<in> set (map doc_id (documents ?conn1))"
    using Cons.prems(2) by (simp add: chunks_ai_def)
  from Cons.IH [OF c(5) d]
  obtain conn' new where r: "insert_chunks env (k + 1) ?conn1 ts did = Inr (conn', k + 1 + length ts)"
      "documents conn' = documents ?conn1" "chunks conn' = chunks ?conn1 @ new"
      "chunks_fts conn' = chunks_fts ?conn1 @ map fts_key new"
      "map ctext new = ts" "list_all (\<lambda>c. document_id c = did \<and> vector c = None) new"
      "fresh_from env (k + 1 + length ts) conn'"
    by blast
  have "insert_chunks env k conn (t # ts) did = Inr (conn', k + length (t # ts))"
    using c(1) r(1) by simp
  moreover have "documents conn' = documents conn" using r(2) by (simp add: chunks_ai_def)
  moreover have "chunks conn' = chunks conn @ (c # new)" using r(3) by (simp add: chunks_ai_def)
  moreover have "chunks_fts conn' = chunks_fts conn @ map fts_key (c # new)"
    using r(4) by (simp add: chunks_ai_def fts_key_def)
  moreover have "map ctext (c # new) = t # ts" using r(5) c(3) by simp
  moreover have "list_all (\<lambda>c. document_id c = did \<and> vector c = None) (c # new)"
    using r(6) c(2,4) by simp
  moreover have "fresh_from env (k + length (t # ts)) conn'" using r(7) by simp
  ultimately show ?case
    by (intro exI [of _ conn'] exI [of _ "c # new"] conjI)
qed

lemma store_document_fresh:
  assumes "fresh_from env k conn"
  shows "\<exists>conn' new. store_document env k conn fname stype spath smod cks
             = Inr (conn', k + 1 + length cks)
           \<and> documents conn' = documents conn @
               [\<lparr>doc_id = uuid4 env k, filename = fname, import_date = time_time env k,
                 source_type = stype, source_path = spath, source_mod_date = smod\<rparr>]
           \<and> chunks conn' = chunks conn @ new
           \<and> chunks_fts conn' = chunks_fts conn @ map fts_key new
           \<and> map ctext new = cks
           \<and> list_all (\<lambda>c. document_id c = uuid4 env k \<and> vector c = None) new
           \<and> fresh_from env (k + 1 + length cks) conn'"
proof -
  let ?d = "\<lparr>doc_id = uuid4 env k, filename = fname, import_date = time_time env k,
                 source_type = stype, source_path = spath, source_mod_date = smod\<rparr>"
  let ?conn1 = "conn\<lparr>documents := documents conn @ [?d]\<rparr>"
  have ins: "insert_document conn (uuid4 env k) fname (time_time env k) stype spath smod = Inr ?conn1"
    using assms by (simp add: insert_document_def fresh_from_def)
  have f1: "fresh_from env (k + 1) ?conn1"
    using assms by (auto simp: fresh_from_def dest: injD)
  have d: "uuid4 env k \<in> set (map doc_id (documents ?conn1))" by simp
  from insert_chunks_fresh [OF f1 d, of cks]
  obtain conn' new where r: "insert_chunks env (k + 1) ?conn1 cks (uuid4 env k)
        = Inr (conn', k + 1 + length cks)"
      "documents conn' = documents ?conn1" "chunks conn' = chunks ?conn1 @ new"
      "chunks_fts conn' = chunks_fts ?conn1 @ map fts_key new"
      "map ctext new = cks"
      "list_all (\<lambda>c. document_id c = uuid4 env k \<and> vector c = None) new"
      "fresh_from env (k + 1 + length cks) conn'"
    by blast
  have "store_document env k conn fname stype spath smod cks = Inr (conn', k + 1 + length cks)"
    using ins r(1) by (simp add: store_document_def)
  then show ?thesis using r(2-) by auto
qed

subsection \<open>A text that starts with a visible character yields a chunk\<close>

lemma split_from_prefix: "\<exists>r. hd (split_from sep acc s) = acc @ r"
  by (induction sep acc s rule: split_from.induct) auto

lemma split_from_not_Nil: "split_from sep acc s \<noteq> []"
  by (induction sep acc s rule: split_from.induct) auto

lemma split_first_piece:
  assumes "sep \<noteq> []" and "c \<noteq> hd sep"
  shows "\<exists>r ps. split sep (c # cs) = (c # r) # ps"
proof -
  have "take (length sep) (c # cs) \<noteq> sep"
    using assms by (cases sep) auto
  then have "split sep (c # cs) = split_from sep [c] cs"
    by (simp add: split_def)
  moreover obtain r where "hd (split_from sep [c] cs) = [c] @ r"
    using split_from_prefix by blast
  moreover have "split_from sep [c] cs \<noteq> []" by (rule split_from_not_Nil)
  ultimately show ?thesis
    by (cases "split_from sep [c] cs") auto
qed

lemma strip_not_Nil: "\<not> isspace c \<Longrightarrow> strip (c # r) \<noteq> []"
  by (simp add: strip_def dropWhile_eq_Nil_conv)

lemma last_dropWhile:
  assumes "dropWhile P zs \<noteq> []"
  shows "last (dropWhile P zs) = last zs"
proof -
  have "last zs = last (takeWhile P zs @ dropWhile P zs)" by simp
  also have "\<dots> = last (dropWhile P zs)" using assms by (rule last_appendR)
  finally show ?thesis by simp
qed

lemma hd_strip:
  assumes "strip s \<noteq> []"
  shows "\<not> isspace (hd (strip s))"
proof -
  let ?ys = "dropWhile isspace s"
  have d: "dropWhile isspace (rev ?ys) \<noteq> []" using assms by (simp add: strip_def)
  have ys: "?ys \<noteq> []"
  proof
    assume "?ys = []"
    then have "dropWhile isspace (rev ?ys) = []" by (simp only: rev.simps dropWhile.simps)
    with d show False by contradiction
  qed
  have "hd (strip s) = last (dropWhile isspace (rev ?ys))"
    using d by (simp add: strip_def hd_rev)
  also have "\<dots> = last (rev ?ys)" using d by (rule last_dropWhile)
  also have "\<dots> = hd ?ys" using ys by (simp add: last_rev)
  finally have "hd (strip s) = hd ?ys" .
  then show ?thesis using ys hd_dropWhile [of isspace s] by simp
qed

lemma isspace_NL: "isspace NL"
  by (simp add: isspace_def)

lemma paragraphs_of_not_Nil:
  assumes "\<not> isspace c"
  shows "paragraphs_of (c # cs) \<noteq> []"
proof -
  have "c \<noteq> hd [NL, NL]" using assms isspace_NL by auto
  then obtain r ps where "split [NL, NL] (c # cs) = (c # r) # ps"
    using split_first_piece [of "[NL, NL]" c cs] by auto
  then show ?thesis
    using strip_not_Nil [OF assms, of r] by (simp add: paragraphs_of_def)
qed

lemma paragraphs_of_stripped:
  "p \<in> set (paragraphs_of t) \<Longrightarrow> p \<noteq> [] \<and> \<not> isspace (hd p)"
  by (auto simp: paragraphs_of_def hd_strip)

lemma pack_sentences_not_Nil:
  assumes "sent_buf \<noteq> [] \<or> acc \<noteq> [] \<or> (sents \<noteq> [] \<and> hd sents \<noteq> [])"
  shows "fst (pack_sentences sents sent_buf acc) \<noteq> [] \<or> snd (pack_sentences sents sent_buf acc) \<noteq> []"
  using assms
proof (induction sents arbitrary: sent_buf acc)
  case Nil
  then show ?case by auto
next
  case (Cons sent sents)
  show ?case
  proof (cases "length sent_buf + length sent > 600")
    case True
    have "sent \<noteq> [] \<or> (if sent_buf \<noteq> [] then acc @ [sent_buf] else acc) \<noteq> []
        \<or> (sents \<noteq> [] \<and> hd sents \<noteq> [])"
      using True by (cases "sent_buf = []") auto
    from Cons.IH [OF this] show ?thesis using True by simp
  next
    case False
    have "sent_buf @ (if sent_buf \<noteq> [] then '' '' else []) @ sent \<noteq> [] \<or> acc \<noteq> []
        \<or> (sents \<noteq> [] \<and> hd sents \<noteq> [])"
      using Cons.prems by auto
    from Cons.IH [OF this] show ?thesis using False by simp
  qed
qed

lemma replace_hd:
  assumes "c \<noteq> NL"
  shows "\<exists>c' r. replace ''. '' [CHR ''.'', NL] (c # cs) = c' # r \<and> c' \<noteq> NL"
  by (simp add: assms)

lemma sentences_of_first:
  assumes "p \<noteq> []" and "\<not> isspace (hd p)"
  shows "sentences_of p \<noteq> [] \<and> hd (sentences_of p) \<noteq> []"
proof -
  obtain c cs where p: "p = c # cs" using assms(1) by (cases p) auto
  have "c \<noteq> NL" using assms(2) p isspace_NL by auto
  then obtain c' r where r: "replace ''. '' [CHR ''.'', NL] p = c' # r" "c' \<noteq> NL"
    using replace_hd p by blast
  then obtain r' ps where "split [NL] (c' # r) = (c' # r') # ps"
    using split_first_piece [of "[NL]" c' r] by auto
  then show ?thesis using r by (simp add: sentences_of_def)
qed

lemma chunk_paragraphs_not_Nil:
  assumes "\<forall>p \<in> set paras. p \<noteq> [] \<and> \<not> isspace (hd p)"
    and "paras \<noteq> [] \<or> buffer \<noteq> [] \<or> acc \<noteq> []"
  shows "fst (chunk_paragraphs paras buffer acc) \<noteq> []
       \<or> snd (chunk_paragraphs paras buffer acc) \<noteq> []"
  using assms
proof (induction paras arbitrary: buffer acc)
  case Nil
  then show ?case by auto
next
  case (Cons para paras)
  have para: "para \<noteq> []" "\<not> isspace (hd para)" using Cons.prems(1) by auto
  have rest: "\<forall>p \<in> set paras. p \<noteq> [] \<and> \<not> isspace (hd p)" using Cons.prems(1) by auto
  show ?case
  proof (cases "length para > 800")
    case True
    let ?c1 = "if buffer \<noteq> [] then acc @ [buffer] else acc"
    let ?r = "pack_sentences (sentences_of para) [] ?c1"
    let ?c3 = "if snd ?r \<noteq> [] then fst ?r @ [snd ?r] else fst ?r"
    have "fst ?r \<noteq> [] \<or> snd ?r \<noteq> []"
      using sentences_of_first [OF para] by (intro pack_sentences_not_Nil) simp
    then have "?c3 \<noteq> []" by auto
    then have "paras \<noteq> [] \<or> ([]::string) \<noteq> [] \<or> ?c3 \<noteq> []" by simp
    moreover have "chunk_paragraphs (para # paras) buffer acc = chunk_paragraphs paras [] ?c3"
      using True by (simp add: Let_def case_prod_beta)
    ultimately show ?thesis using Cons.IH [OF rest, of "[]" ?c3] by simp
  next
    case False
    show ?thesis
    proof (cases "length buffer + length para < 100")
      case True
      have "paras \<noteq> [] \<or> buffer @ (if buffer \<noteq> [] then [NL, NL] else []) @ para \<noteq> [] \<or> acc \<noteq> []"
        using para by simp
      from Cons.IH [OF rest this] show ?thesis using True False by simp
    next
      case F2: False
      have "paras \<noteq> [] \<or> para \<noteq> [] \<or> (if buffer \<noteq> [] then acc @ [buffer] else acc) \<noteq> []"
        using para by simp
      from Cons.IH [OF rest this] show ?thesis using F2 False by simp
    qed
  qed
qed

lemma chunk_text_not_Nil:
  assumes "\<not> isspace c"
  shows "chunk_text (c # cs) \<noteq> []"
proof -
  let ?r = "chunk_paragraphs (paragraphs_of (c # cs)) [] []"
  have "fst ?r \<noteq> [] \<or> snd ?r \<noteq> []"
    using paragraphs_of_not_Nil [OF assms, of cs] paragraphs_of_stripped
    by (intro chunk_paragraphs_not_Nil) auto
  then show ?thesis
    by (auto simp: chunk_text_def split: prod.splits)
qed

lemma join_Cons: "\<exists>r. join sep ((c # x) # xs) = c # r"
  by (cases xs) auto

lemma message_blocks_well_formed:
  assumes "list_all (\<lambda>m. sender m \<noteq> Missing \<and> mtext m \<noteq> Missing) ms"
  shows "message_blocks ms =
           Inr (map (\<lambda>m. ''['' @ (if sender m = Str ''human'' then ''Human'' else ''Assistant'')
                          @ '']'' @ [NL] @ field_str (mtext m)) ms)"
  using assms by (induction ms) (simp_all add: message_block_def)

lemma conversation_transcript_well_formed:
  "well_formed c \<Longrightarrow> conversation_transcript c = Inr (transcript_text c)"
  by (simp add: well_formed_def conversation_transcript_def transcript_text_def
      message_blocks_well_formed)

lemma message_blocks_missing:
  assumes "\<not> list_all (\<lambda>m. sender m \<noteq> Missing \<and> mtext m \<noteq> Missing) ms"
  shows "message_blocks ms = Inl KeyError"
  using assms by (induction ms) (auto simp: message_block_def split: sum.splits)

lemma missing_key_raises:
  assumes "\<not> well_formed c"
  shows "import_conversations env (c # cs) st n = Inl KeyError"
  using assms
  by (simp add: well_formed_def conversation_transcript_def message_blocks_missing)

lemma eligible_chunks:
  assumes "eligible c"
  shows "chunk_text (transcript_text c) \<noteq> []"
proof -
  have "chat_messages c \<noteq> []"
    using assms by (auto simp: eligible_def MIN_HUMAN_MESSAGES_def)
  then obtain m ms where ms: "chat_messages c = m # ms" by (cases "chat_messages c") auto
  let ?f = "\<lambda>m. ''['' @ (if sender m = Str ''human'' then ''Human'' else ''Assistant'') @ '']''
                  @ [NL] @ field_str (mtext m)"
  obtain x where x: "?f m = CHR ''['' # x" by simp
  have "transcript_text c = join [NL, NL] ((CHR ''['' # x) # map ?f ms)"
    unfolding transcript_text_def ms using x by simp
  then obtain r where "transcript_text c = CHR ''['' # r"
    using join_Cons [of "[NL, NL]" "CHR ''[''" x "map ?f ms"] by auto
  moreover have "\<not> isspace (CHR ''['')" by (simp add: isspace_def)
  ultimately show ?thesis using chunk_text_not_Nil by simp
qed

lemma length_concat_ge:
  "list_all (\<lambda>xs. xs \<noteq> []) xss \<Longrightarrow> length xss \<le> length (concat xss)"
proof (induction xss)
  case Nil
  then show ?case by simp
next
  case (Cons xs xss)
  then have "xs \<noteq> []" and ih: "length xss \<le> length (concat xss)" by simp_all
  then have "Suc 0 \<le> length xs" by (cases xs) simp_all
  then show ?case using ih by simp
qed

subsection \<open>The import of a Claude.ai export\<close>

lemma import_conversations_fresh:
  assumes "fresh_from env k conn" and "list_all eligible cs" and "list_all well_formed cs"
  shows "\<exists>conn' k' newd newc.
           import_conversations env cs (conn, k) n = Inr ((conn', k'), n + length cs)
           \<and> documents conn' = documents conn @ newd
           \<and> list_all (\<lambda>d. source_path d = None \<and> source_type d = ''claude_ai'') newd
           \<and> map filename newd = map conversation_filename cs
           \<and> chunks conn' = chunks conn @ newc
           \<and> chunks_fts conn' = chunks_fts conn @ map fts_key newc
           \<and> map ctext newc = concat (map (\<lambda>c. chunk_text (transcript_text c)) cs)
           \<and> list_all (\<lambda>c. vector c = None \<and> document_id c \<in> set (map doc_id newd)) newc
           \<and> fresh_from env k' conn'"
  using assms
proof (induction cs arbitrary: conn k n)
  case Nil
  then show ?case by simp
next
  case (Cons c cs)
  let ?cks = "chunk_text (transcript_text c)"
  have ne: "?cks \<noteq> []" using Cons.prems(2) by (simp add: eligible_chunks)
  have tr: "conversation_transcript c = Inr (transcript_text c)"
    using Cons.prems(3) by (simp add: conversation_transcript_well_formed)
  let ?d = "\<lparr>doc_id = uuid4 env k, filename = conversation_filename c,
                 import_date = time_time env k,
                 source_type = ''claude_ai'', source_path = None, source_mod_date = None\<rparr>"
  from store_document_fresh [OF Cons.prems(1), of "conversation_filename c" "''claude_ai''" None None ?cks]
  obtain conn1 new1 where s: "store_document env k conn (conversation_filename c) ''claude_ai'' None None ?cks
        = Inr (conn1, k + 1 + length ?cks)"
      "documents conn1 = documents conn @ [?d]"
      "chunks conn1 = chunks conn @ new1"
      "chunks_fts conn1 = chunks_fts conn @ map fts_key new1"
      "map ctext new1 = ?cks"
      "list_all (\<lambda>c. document_id c = uuid4 env k \<and> vector c = None) new1"
      "fresh_from env (k + 1 + length ?cks) conn1"
    by blast
  have el: "list_all eligible cs" and wf: "list_all well_formed cs"
    using Cons.prems(2,3) by simp_all
  from Cons.IH [OF s(7) el wf, of "n + 1"]
  obtain conn' k' newd newc where r:
      "import_conversations env cs (conn1, k + 1 + length ?cks) (n + 1)
         = Inr ((conn', k'), n + 1 + length cs)"
      "documents conn' = documents conn1 @ newd"
      "list_all (\<lambda>d. source_path d = None \<and> source_type d = ''claude_ai'') newd"
      "map filename newd = map conversation_filename cs"
      "chunks conn' = chunks conn1 @ newc"
      "chunks_fts conn' = chunks_fts conn1 @ map fts_key newc"
      "map ctext newc = concat (map (\<lambda>c. chunk_text (transcript_text c)) cs)"
      "list_all (\<lambda>c. vector c = None \<and> document_id c \<in> set (map doc_id newd)) newc"
      "fresh_from env k' conn'"
    by blast
  have "import_conversations env (c # cs) (conn, k) n = Inr ((conn', k'), n + length (c # cs))"
    using ne tr s(1) r(1) by simp
  moreover have "documents conn' = documents conn @ (?d # newd)" using r(2) s(2) by simp
  moreover have "list_all (\<lambda>d. source_path d = None \<and> source_type d = ''claude_ai'') (?d # newd)"
    using r(3) by simp
  moreover have "map filename (?d # newd) = map conversation_filename (c # cs)"
    using r(4) by simp
  moreover have "chunks conn' = chunks conn @ (new1 @ newc)" using r(5) s(3) by simp
  moreover have "chunks_fts conn' = chunks_fts conn @ map fts_key (new1 @ newc)"
    using r(6) s(4) by simp
  moreover have "map ctext (new1 @ newc)
      = concat (map (\<lambda>c. chunk_text (transcript_text c)) (c # cs))"
    using r(7) s(5) by simp
  moreover have "list_all (\<lambda>c. vector c = None \<and> document_id c \<in> set (map doc_id (?d # newd)))
      (new1 @ newc)"
    using r(8) s(6) by (auto simp: list_all_iff)
  ultimately show ?case
    using r(9)
    by (intro exI [of _ conn'] exI [of _ k'] exI [of _ "?d # newd"] exI [of _ "new1 @ newc"] conjI)
qed

lemma existing_source_paths_None:
  assumes "documents conn' = documents conn @ new" and "list_all (\<lambda>d. source_path d = None) new"
  shows "existing_source_paths conn' = existing_source_paths conn"
  using assms
  by (auto simp: existing_source_paths_def List.map_filter_def list_all_iff)

lemma inj_example_uuid4: "inj (uuid4 example_env)"
proof (rule injI)
  fix x y assume "uuid4 example_env x = uuid4 example_env y"
  then have "length (replicate (Suc x) (CHR ''u'')) = length (replicate (Suc y) (CHR ''u''))"
    by (simp add: example_env_def)
  then show "x = y" by simp
qed

lemma fresh_from_init_db: "fresh_from example_env 0 init_db"
  by (simp add: fresh_from_def inj_example_uuid4 init_db_def)

lemma eligible_example: "filter eligible [example_conversation] = [example_conversation]"
  by (simp add: eligible_def example_conversation_def MIN_HUMAN_MESSAGES_def)

lemma well_formed_example: "list_all well_formed [example_conversation]"
  by (simp add: well_formed_def example_conversation_def list_all_iff)

lemma chunk_text_example:
  "chunk_text (transcript_text example_conversation) =
     [join [NL, NL] (replicate 5 (''[Human]'' @ [NL] @ ''hello''))]"
  by code_simp

text \<open>
  Claim C10. The export is one whose messages, in the eligible conversations, have the keys
  \<^verbatim>\<open>sender\<close> and \<^verbatim>\<open>text\<close>, and the ids from \<^verbatim>\<open>uuid4\<close> are fresh for the store. Then the
  Claude.ai import succeeds and inserts one document for every eligible conversation, each
  with an absent source path, and after it the chunks of that conversation's transcript,
  at least one, each without a vector, referencing one of the new documents and entered in
  the full-text index; the set of recorded source paths is as before. A second import of
  the same export on the resulting store succeeds too: it inserts, for every eligible
  conversation, a second document with the same display name and again no source path, and
  a second copy of its chunks, with the same texts, referencing the second documents.
\<close>

theorem claude_ai_import_repeats:
  assumes "fresh_from env k conn" and "list_all well_formed (filter eligible convs)"
  shows "\<exists>st1 st2 d1 d2 c1 c2.
           import_claude_ai env convs (conn, k) = Inr (st1, length (filter eligible convs))
         \<and> import_claude_ai env convs st1 = Inr (st2, length (filter eligible convs))
         \<and> documents (fst st1) = documents conn @ d1
         \<and> documents (fst st2) = documents conn @ d1 @ d2
         \<and> length d1 = length (filter eligible convs)
         \<and> length d2 = length (filter eligible convs)
         \<and> list_all (\<lambda>d. source_path d = None) (d1 @ d2)
         \<and> map filename d1 = map conversation_filename (filter eligible convs)
         \<and> map filename d2 = map filename d1
         \<and> chunks (fst st1) = chunks conn @ c1
         \<and> chunks (fst st2) = chunks conn @ c1 @ c2
         \<and> map ctext c1
             = concat (map (\<lambda>c. chunk_text (transcript_text c)) (filter eligible convs))
         \<and> map ctext c2 = map ctext c1
         \<and> length (filter eligible convs) \<le> length c1
         \<and> length c2 = length c1
         \<and> list_all (\<lambda>c. vector c = None \<and> document_id c \<in> set (map doc_id d1)) c1
         \<and> list_all (\<lambda>c. vector c = None \<and> document_id c \<in> set (map doc_id d2)) c2
         \<and> chunks_fts (fst st2) = chunks_fts conn @ map fts_key (c1 @ c2)
         \<and> existing_source_paths (fst st2) = existing_source_paths conn"
proof -
  let ?cs = "filter eligible convs"
  have el: "list_all eligible ?cs" by (simp add: list_all_iff)
  from import_conversations_fresh [OF assms(1) el assms(2), of 0]
  obtain conn1 k1 d1 c1 where r1:
      "import_conversations env ?cs (conn, k) 0 = Inr ((conn1, k1), 0 + length ?cs)"
      "documents conn1 = documents conn @ d1"
      "list_all (\<lambda>d. source_path d = None \<and> source_type d = ''claude_ai'') d1"
      "map filename d1 = map conversation_filename ?cs"
      "chunks conn1 = chunks conn @ c1"
      "chunks_fts conn1 = chunks_fts conn @ map fts_key c1"
      "map ctext c1 = concat (map (\<lambda>c. chunk_text (transcript_text c)) ?cs)"
      "list_all (\<lambda>c. vector c = None \<and> document_id c \<in> set (map doc_id d1)) c1"
      "fresh_from env k1 conn1"
    by blast
  from import_conversations_fresh [OF r1(9) el assms(2), of 0]
  obtain conn2 k2 d2 c2 where r2:
      "import_conversations env ?cs (conn1, k1) 0 = Inr ((conn2, k2), 0 + length ?cs)"
      "documents conn2 = documents conn1 @ d2"
      "list_all (\<lambda>d. source_path d = None \<and> source_type d = ''claude_ai'') d2"
      "map filename d2 = map conversation_filename ?cs"
      "chunks conn2 = chunks conn1 @ c2"
      "chunks_fts conn2 = chunks_fts conn1 @ map fts_key c2"
      "map ctext c2 = concat (map (\<lambda>c. chunk_text (transcript_text c)) ?cs)"
      "list_all (\<lambda>c. vector c = None \<and> document_id c \<in> set (map doc_id d2)) c2"
      "fresh_from env k2 conn2"
    by blast
  have n1: "list_all (\<lambda>d. source_path d = None) (d1 @ d2)"
    using r1(3) r2(3) by (auto simp: list_all_iff)
  have l1: "length d1 = length ?cs" using r1(4) by (metis length_map)
  have l2: "length d2 = length ?cs" using r2(4) by (metis length_map)
  have docs2: "documents conn2 = documents conn @ (d1 @ d2)" using r1(2) r2(2) by simp
  have ex: "existing_source_paths conn2 = existing_source_paths conn"
    using docs2 n1 by (rule existing_source_paths_None)
  have i1: "import_claude_ai env convs (conn, k) = Inr ((conn1, k1), length ?cs)"
    using r1(1) by (simp add: import_claude_ai_def)
  have i2: "import_claude_ai env convs (conn1, k1) = Inr ((conn2, k2), length ?cs)"
    using r2(1) by (simp add: import_claude_ai_def)
  have f: "map filename d2 = map filename d1" using r1(4) r2(4) by simp
  have ch2: "chunks conn2 = chunks conn @ c1 @ c2" using r1(5) r2(5) by simp
  have tx: "map ctext c2 = map ctext c1" using r1(7) r2(7) by simp
  have lc: "length c2 = length c1" using tx by (metis length_map)
  have "list_all (\<lambda>xs. xs \<noteq> []) (map (\<lambda>c. chunk_text (transcript_text c)) ?cs)"
    by (simp add: list_all_iff eligible_chunks)
  from length_concat_ge [OF this]
  have "length ?cs \<le> length (map ctext c1)" unfolding r1(7) by simp
  then have ge: "length ?cs \<le> length c1" by simp
  have fts: "chunks_fts conn2 = chunks_fts conn @ map fts_key (c1 @ c2)"
    using r1(6) r2(6) by simp
  show ?thesis
    using i1 i2 r1(2) docs2 l1 l2 n1 r1(4) f r1(5) ch2 r1(7) tx ge lc r1(8) r2(8) fts ex
    by (intro exI [of _ "(conn1, k1)"] exI [of _ "(conn2, k2)"] exI [of _ d1] exI [of _ d2]
        exI [of _ c1] exI [of _ c2] conjI) simp_all
qed

theorem claude_ai_import_repeats_witness:
  "\<exists>st1 st2 d1 d2 c1 c2.
           import_claude_ai example_env [example_conversation] (init_db :: int store, 0) = Inr (st1, 1)
         \<and> import_claude_ai example_env [example_conversation] st1 = Inr (st2, 1)
         \<and> documents (fst st1) = d1
         \<and> documents (fst st2) = d1 @ d2
         \<and> length d1 = 1
         \<and> length d2 = 1
         \<and> list_all (\<lambda>d. source_path d = None) (d1 @ d2)
         \<and> map filename d1 = [''claude.ai: plans'']
         \<and> map filename d2 = map filename d1
         \<and> chunks (fst st1) = c1
         \<and> chunks (fst st2) = c1 @ c2
         \<and> map ctext c1 = [join [NL, NL] (replicate 5 (''[Human]'' @ [NL] @ ''hello''))]
         \<and> map ctext c2 = map ctext c1
         \<and> 1 \<le> length c1
         \<and> length c2 = length c1
         \<and> list_all (\<lambda>c. vector c = None \<and> document_id c \<in> set (map doc_id d1)) c1
         \<and> list_all (\<lambda>c. vector c = None \<and> document_id c \<in> set (map doc_id d2)) c2
         \<and> chunks_fts (fst st2) = map fts_key (c1 @ c2)
         \<and> existing_source_paths (fst st2) = {}"
proof -
  have wf: "list_all well_formed (filter eligible [example_conversation])"
    unfolding eligible_example by (rule well_formed_example)
  have nm: "conversation_filename example_conversation = ''claude.ai: plans''"
    by (simp add: conversation_filename_def example_conversation_def field_str_def)
  show ?thesis
    using claude_ai_import_repeats [OF fresh_from_init_db wf]
    unfolding eligible_example
    by (simp add: init_db_def existing_source_paths_def List.map_filter_def nm
        chunk_text_example)
qed

text \<open>A conversation with a message that lacks its text makes the import raise
  \<^verbatim>\<open>KeyError\<close>; nothing of the run is then committed.\<close>

lemma broken_export_raises:
  "import_claude_ai example_env [example_conversation, broken_conversation]
     (init_db :: int store, 0) = Inl KeyError"
  by code_simp

subsection \<open>The import of transcripts skips recorded paths; the single-file import does not\<close>

lemma insert_chunks_documents:
  "insert_chunks env k conn ts did = Inr (conn', k') \<Longrightarrow> documents conn' = documents conn"
proof (induction ts arbitrary: conn k)
  case Nil
  then show ?case by simp
next
  case (Cons t ts)
  then show ?case
    by (auto simp: insert_chunk_def chunks_ai_def Let_def split: sum.splits if_splits)
qed

lemma store_document_documents:
  assumes "store_document env k conn fname stype spath smod cks = Inr (conn', k')"
  shows "\<exists>d. documents conn' = documents conn @ [d] \<and> source_path d = spath"
  using assms
  by (auto simp: store_document_def insert_document_def
      split: sum.splits if_splits dest!: insert_chunks_documents)

lemma import_transcripts_step:
  "import_transcripts env (f # fs) st rep
     = import_transcripts env fs st (rep\<lparr>skipped := skipped rep + 1\<rparr>)
   \<or> (\<exists>st1 d. documents (fst st1) = documents (fst st) @ [d]
          \<and> source_path d = Some (fpath f)
          \<and> import_transcripts env (f # fs) st rep
              = import_transcripts env fs st1 (rep\<lparr>imported := imported rep + 1\<rparr>))
   \<or> (\<exists>x. import_transcripts env (f # fs) st rep = Inl x)"
proof (cases "stat f")
  case None
  then show ?thesis by simp
next
  case (Some sm)
  obtain st_size mtime where sm: "sm = (st_size, mtime)" by (cases sm)
  show ?thesis
  proof (cases "parsed f")
    case None
    then show ?thesis using Some sm by simp
  next
    case (Some messages)
    note ps = Some
    let ?cks = "chunk_text (transcript_of messages)"
    let ?store = "store_document env (snd st) (fst st)
                  (''claude-code/'' @ path_parent_name (fpath f) @ ''/'' @ path_stem (fpath f))
                  ''claude_code'' (Some (fpath f)) (Some mtime) ?cks"
    show ?thesis
    proof (cases "st_size > MAX_FILE_SIZE
        \<or> length (filter (\<lambda>(r, t). r = ''Human'') messages) < MIN_HUMAN_MESSAGES
        \<or> ?cks = []")
      case True
      then show ?thesis using \<open>stat f = Some sm\<close> sm ps by (auto simp: Let_def)
    next
      case False
      show ?thesis
      proof (cases ?store)
        case (Inl x)
        then show ?thesis using False \<open>stat f = Some sm\<close> sm ps by (simp add: Let_def)
      next
        case (Inr st1)
        have "?store = Inr (fst st1, snd st1)" using Inr by simp
        from store_document_documents [OF this]
        obtain d where "documents (fst st1) = documents (fst st) @ [d]"
            "source_path d = Some (fpath f)"
          by blast
        moreover have "import_transcripts env (f # fs) st rep
              = import_transcripts env fs st1 (rep\<lparr>imported := imported rep + 1\<rparr>)"
          using False \<open>stat f = Some sm\<close> sm ps Inr by (simp add: Let_def)
        ultimately show ?thesis by blast
      qed
    qed
  qed
qed

lemma import_transcripts_other_paths:
  assumes "import_transcripts env fs st rep = Inr (st', rep')" and "p \<notin> fpath ` set fs"
  shows "filter (\<lambda>d. source_path d = Some p) (documents (fst st'))
           = filter (\<lambda>d. source_path d = Some p) (documents (fst st))"
  using assms
proof (induction fs arbitrary: st rep)
  case Nil
  then show ?case by simp
next
  case (Cons f fs)
  have p: "p \<notin> fpath ` set fs" "fpath f \<noteq> p" using Cons.prems(2) by auto
  from import_transcripts_step [of env f fs st rep]
  consider (skip) "import_transcripts env (f # fs) st rep
       = import_transcripts env fs st (rep\<lparr>skipped := skipped rep + 1\<rparr>)"
    | (store) st1 d where "documents (fst st1) = documents (fst st) @ [d]"
        "source_path d = Some (fpath f)"
        "import_transcripts env (f # fs) st rep
           = import_transcripts env fs st1 (rep\<lparr>imported := imported rep + 1\<rparr>)"
    | (fail) x where "import_transcripts env (f # fs) st rep = Inl x"
    by blast
  then show ?case
  proof cases
    case skip
    then have "import_transcripts env fs st (rep\<lparr>skipped := skipped rep + 1\<rparr>) = Inr (st', rep')"
      using Cons.prems(1) by simp
    from Cons.IH [OF this p(1)] show ?thesis .
  next
    case (store st1 d)
    then have "import_transcripts env fs st1 (rep\<lparr>imported := imported rep + 1\<rparr>) = Inr (st', rep')"
      using Cons.prems(1) by simp
    from Cons.IH [OF this p(1)]
    show ?thesis using store(1,2) p(2) by simp
  next
    case (fail x)
    then show ?thesis using Cons.prems(1) by simp
  qed
qed

lemma recorded_path_not_reimported:
  assumes "import_claude_code env jsonl_files st = Inr (st', rep)"
    and "p \<in> existing_source_paths (fst st)"
  shows "filter (\<lambda>d. source_path d = Some p) (documents (fst st'))
           = filter (\<lambda>d. source_path d = Some p) (documents (fst st))"
proof -
  let ?todo = "filter (\<lambda>f. fpath f \<notin> existing_source_paths (fst st)) jsonl_files"
  have "p \<notin> fpath ` set ?todo" using assms(2) by auto
  then show ?thesis
    using assms(1) import_transcripts_other_paths [of env ?todo st _ st' rep p]
    by (auto simp: import_claude_code_def Let_def split: if_splits)
qed

text \<open>
  Claim C2 at a concrete run. The single-file import of \<^verbatim>\<open>/tmp/notes.md\<close> into the new
  store inserts a document with that source path and its chunk. The same import run again
  on the resulting store does not look the path up: it inserts a second document with the
  same source path and a second chunk. (The import of transcripts filters the recorded
  paths out first, see \<open>recorded_path_not_reimported\<close>.)
\<close>

theorem file_import_twice_two_documents:
  "import_file example_env (Some ''hello'') ''/tmp/notes.md'' (init_db :: int store, 0) =
     Inr (\<lparr>documents =
         [\<lparr>doc_id = ''u'', filename = ''notes.md'', import_date = 0,
             source_type = ''file'', source_path = Some ''/tmp/notes.md'',
             source_mod_date = None\<rparr>],
         chunks =
           [\<lparr>rowid = 1, chunk_id = ''uu'', document_id = ''u'',
               ctext = ''hello'', vector = None\<rparr>],
         chunks_fts = [(1, ''hello'')]\<rparr>, 2)
   \<and> import_file example_env (Some ''hello'') ''/tmp/notes.md''
       (\<lparr>documents =
         [\<lparr>doc_id = ''u'', filename = ''notes.md'', import_date = 0,
             source_type = ''file'', source_path = Some ''/tmp/notes.md'',
             source_mod_date = None\<rparr>],
         chunks =
           [\<lparr>rowid = 1, chunk_id = ''uu'', document_id = ''u'',
               ctext = ''hello'', vector = None\<rparr>],
         chunks_fts = [(1, ''hello'')]\<rparr> :: int store, 2) =
     Inr (\<lparr>documents =
         [\<lparr>doc_id = ''u'', filename = ''notes.md'', import_date = 0,
             source_type = ''file'', source_path = Some ''/tmp/notes.md'',
             source_mod_date = None\<rparr>,
          \<lparr>doc_id = ''uuu'', filename = ''notes.md'', import_date = 2,
             source_type = ''file'', source_path = Some ''/tmp/notes.md'',
             source_mod_date = None\<rparr>],
         chunks =
           [\<lparr>rowid = 1, chunk_id = ''uu'', document_id = ''u'',
               ctext = ''hello'', vector = None\<rparr>,
            \<lparr>rowid = 2, chunk_id = ''uuuu'', document_id = ''uuu'',
               ctext = ''hello'', vector = None\<rparr>],
         chunks_fts = [(1, ''hello''), (2, ''hello'')]\<rparr>, 4)"
  by code_simp

section \<open>Verification of the chunker\<close>

lemma split_from_skip:
  assumes "sep \<noteq> []" and "hd sep \<notin> set xs"
  shows "split_from sep acc (xs @ ys) = split_from sep (acc @ xs) ys"
  using assms(2)
proof (induction xs arbitrary: acc)
  case Nil
  then show ?case by simp
next
  case (Cons x xs)
  have "take (length sep) (x # xs @ ys) \<noteq> sep"
    using assms(1) Cons.prems by (cases sep) auto
  then show ?case using Cons by simp
qed

lemma split_absent:
  assumes "sep \<noteq> []" and "hd sep \<notin> set s"
  shows "split sep s = [s]"
  using split_from_skip [OF assms, of "[]" "[]"] by (simp add: split_def)

lemma replace_skip:
  assumes "old \<noteq> []" and "hd old \<notin> set xs"
  shows "replace old new (xs @ ys) = xs @ replace old new ys"
  using assms(2)
proof (induction xs)
  case Nil
  then show ?case by simp
next
  case (Cons x xs)
  have "take (length old) (x # xs @ ys) \<noteq> old"
    using assms(1) Cons.prems by (cases old) auto
  then show ?case using Cons by simp
qed

lemma strip_id:
  assumes "s \<noteq> []" and "\<not> isspace (hd s)" and "\<not> isspace (last s)"
  shows "strip s = s"
proof -
  have 1: "dropWhile isspace s = s" using assms(1,2) by (cases s) auto
  have "rev s \<noteq> []" "\<not> isspace (hd (rev s))" using assms(1,3) by (simp_all add: hd_rev)
  then have "dropWhile isspace (rev s) = rev s" by (cases "rev s") auto
  then show ?thesis using 1 by (simp add: strip_def)
qed

lemma sentences_of_long_paragraph:
  "sentences_of long_paragraph =
     [replicate 299 (CHR ''a'') @ ''.'', replicate 299 (CHR ''b'') @ ''.'', replicate 300 (CHR ''c'')]"
proof -
  let ?A = "replicate 299 (CHR ''a'')" and ?B = "replicate 299 (CHR ''b'')"
  let ?C = "replicate 300 (CHR ''c'')"
  let ?old = "''. ''" and ?new = "[CHR ''.'', NL]"
  have c: "replace ?old ?new ?C = ?C"
    using replace_skip [of ?old ?C ?new "[]"] by simp
  have b: "replace ?old ?new (?B @ ''. '' @ ?C) = ?B @ ?new @ ?C"
    using replace_skip [of ?old ?B ?new "''. '' @ ?C"] c by simp
  have a: "replace ?old ?new long_paragraph = ?A @ ?new @ ?B @ ?new @ ?C"
    unfolding long_paragraph_def
    using replace_skip [of ?old ?A ?new "''. '' @ ?B @ ''. '' @ ?C"] b by simp
  have s3: "split_from [NL] [] ?C = [?C]"
    using split_from_skip [of "[NL]" ?C "[]" "[]"] by simp
  have s2: "split_from [NL] [] (?B @ ''.'' @ NL # ?C) = [?B @ ''.'', ?C]"
    using split_from_skip [of "[NL]" "?B @ ''.''" "[]" "NL # ?C"] s3 by simp
  have s1: "split_from [NL] [] (?A @ ''.'' @ NL # ?B @ ''.'' @ NL # ?C)
      = [?A @ ''.'', ?B @ ''.'', ?C]"
    using split_from_skip [of "[NL]" "?A @ ''.''" "[]" "NL # ?B @ ''.'' @ NL # ?C"] s2 by simp
  show ?thesis
    unfolding sentences_of_def a split_def using s1 by simp
qed

lemma paragraphs_of_long_paragraph: "paragraphs_of long_paragraph = [long_paragraph]"
proof -
  have "split [NL, NL] long_paragraph = [long_paragraph]"
    by (rule split_absent) (simp_all add: long_paragraph_def)
  moreover have "strip long_paragraph = long_paragraph"
    by (rule strip_id) (simp_all add: long_paragraph_def isspace_def)
  moreover have "long_paragraph \<noteq> []" by (simp add: long_paragraph_def)
  ultimately show ?thesis by (simp add: paragraphs_of_def)
qed

text \<open>
  Claim C3 at a concrete text: one paragraph of 902 characters, which the chunker splits
  into three sentence units of 300 characters. The first two are packed together, since
  300 + 300 does not exceed 600, and joined by a space: the fragment has 601 characters and
  is neither a single paragraph nor a single sentence unit. The test of the packing loop
  does not count the joining space.
\<close>

theorem joined_sentences_exceed_ceiling:
  "chunk_text long_paragraph =
     [replicate 299 (CHR ''a'') @ ''. '' @ replicate 299 (CHR ''b'') @ ''.'',
      replicate 300 (CHR ''c'')]
   \<and> length (replicate 299 (CHR ''a'') @ ''. '' @ replicate 299 (CHR ''b'') @ ''.'') = 601
   \<and> paragraphs_of long_paragraph = [long_paragraph]
   \<and> sentences_of long_paragraph =
       [replicate 299 (CHR ''a'') @ ''.'', replicate 299 (CHR ''b'') @ ''.'',
        replicate 300 (CHR ''c'')]"
proof -
  have len: "length long_paragraph > 800" by (simp add: long_paragraph_def)
  have "chunk_paragraphs [long_paragraph] [] [] =
      ([replicate 299 (CHR ''a'') @ ''. '' @ replicate 299 (CHR ''b'') @ ''.'',
        replicate 300 (CHR ''c'')], [])"
    using len by (simp add: sentences_of_long_paragraph)
  then have "chunk_text long_paragraph =
     [replicate 299 (CHR ''a'') @ ''. '' @ replicate 299 (CHR ''b'') @ ''.'',
      replicate 300 (CHR ''c'')]"
    by (simp add: chunk_text_def paragraphs_of_long_paragraph)
  then show ?thesis
    by (simp add: paragraphs_of_long_paragraph sentences_of_long_paragraph)
qed

subsection \<open>The bound that the thresholds do give\<close>

lemma pack_sentences_bound:
  assumes "\<forall>c \<in> set acc. length c \<le> 601 \<or> c \<in> S"
    and "length sent_buf \<le> 601 \<or> sent_buf \<in> S"
    and "set sents \<subseteq> S"
  shows "(\<forall>c \<in> set (fst (pack_sentences sents sent_buf acc)). length c \<le> 601 \<or> c \<in> S)
       \<and> (length (snd (pack_sentences sents sent_buf acc)) \<le> 601
            \<or> snd (pack_sentences sents sent_buf acc) \<in> S)"
  using assms
proof (induction sents arbitrary: sent_buf acc)
  case Nil
  then show ?case by simp
next
  case (Cons sent sents)
  have sent: "sent \<in> S" and rest: "set sents \<subseteq> S" using Cons.prems(3) by auto
  show ?case
  proof (cases "length sent_buf + length sent > 600")
    case True
    have a: "\<forall>c \<in> set (if sent_buf \<noteq> [] then acc @ [sent_buf] else acc). length c \<le> 601 \<or> c \<in> S"
      using Cons.prems(1,2) by auto
    have b: "length sent \<le> 601 \<or> sent \<in> S" using sent by simp
    from Cons.IH [OF a b rest] show ?thesis using True by simp
  next
    case False
    have b: "length (sent_buf @ (if sent_buf \<noteq> [] then '' '' else []) @ sent) \<le> 601
        \<or> sent_buf @ (if sent_buf \<noteq> [] then '' '' else []) @ sent \<in> S"
      using False sent by auto
    from Cons.IH [OF Cons.prems(1) b rest] show ?thesis using False by simp
  qed
qed

lemma chunk_paragraphs_bound:
  assumes "\<forall>c \<in> set acc. fragment_ok P c" and "fragment_ok P buffer" and "set paras \<subseteq> P"
  shows "(\<forall>c \<in> set (fst (chunk_paragraphs paras buffer acc)). fragment_ok P c)
       \<and> fragment_ok P (snd (chunk_paragraphs paras buffer acc))"
  using assms
proof (induction paras arbitrary: buffer acc)
  case Nil
  then show ?case by simp
next
  case (Cons para paras)
  have para: "para \<in> P" and rest: "set paras \<subseteq> P" using Cons.prems(3) by auto
  let ?c1 = "if buffer \<noteq> [] then acc @ [buffer] else acc"
  have c1: "\<forall>c \<in> set ?c1. fragment_ok P c" using Cons.prems(1,2) by auto
  show ?case
  proof (cases "length para > 800")
    case True
    let ?S = "set (sentences_of para)"
    let ?r = "pack_sentences (sentences_of para) [] ?c1"
    let ?c3 = "if snd ?r \<noteq> [] then fst ?r @ [snd ?r] else fst ?r"
    have step: "chunk_paragraphs (para # paras) buffer acc = chunk_paragraphs paras [] ?c3"
      using True by (simp add: Let_def case_prod_beta)
    have sub: "set (sentences_of para) \<subseteq> {c. fragment_ok P c}"
      using para by (auto simp: fragment_ok_def)
    have le: "\<And>c. length c \<le> 601 \<Longrightarrow> fragment_ok P c"
      by (simp add: fragment_ok_def)
    have a: "\<forall>c \<in> set ?c1. length c \<le> 601 \<or> c \<in> {c. fragment_ok P c}"
      using c1 by simp
    have b: "length ([] :: string) \<le> 601 \<or> [] \<in> {c. fragment_ok P c}" by simp
    note pk = pack_sentences_bound [OF a b sub]
    have q1: "\<forall>c \<in> set (fst ?r). fragment_ok P c"
    proof
      fix c assume "c \<in> set (fst ?r)"
      then have "length c \<le> 601 \<or> c \<in> {c. fragment_ok P c}" using pk by blast
      then show "fragment_ok P c" using le by blast
    qed
    have "length (snd ?r) \<le> 601 \<or> snd ?r \<in> {c. fragment_ok P c}" using pk by blast
    then have q2: "fragment_ok P (snd ?r)" using le by blast
    note q = q1 q2
    have c3: "\<forall>c \<in> set ?c3. fragment_ok P c"
      using q by simp
    have e: "fragment_ok P []" by (simp add: fragment_ok_def)
    from Cons.IH [OF c3 e rest] show ?thesis unfolding step .
  next
    case False
    show ?thesis
    proof (cases "length buffer + length para < 100")
      case True
      have b: "fragment_ok P (buffer @ (if buffer \<noteq> [] then [NL, NL] else []) @ para)"
        using True para by (auto simp: fragment_ok_def)
      from Cons.IH [OF Cons.prems(1) b rest] show ?thesis using True False by simp
    next
      case F2: False
      have b: "fragment_ok P para" using para by (simp add: fragment_ok_def)
      from Cons.IH [OF c1 b rest] show ?thesis using F2 False by simp
    qed
  qed
qed

lemma chunk_text_bound:
  assumes "c \<in> set (chunk_text t)"
  shows "length c \<le> 601 \<or> c \<in> set (paragraphs_of t)
       \<or> (\<exists>p \<in> set (paragraphs_of t). c \<in> set (sentences_of p))"
proof -
  let ?P = "set (paragraphs_of t)"
  let ?r = "chunk_paragraphs (paragraphs_of t) [] []"
  have "(\<forall>c \<in> set (fst ?r). fragment_ok ?P c) \<and> fragment_ok ?P (snd ?r)"
    by (intro chunk_paragraphs_bound) (simp_all add: fragment_ok_def)
  moreover have "c \<in> set (fst ?r) \<or> c = snd ?r"
    using assms by (auto simp: chunk_text_def case_prod_beta split: if_splits)
  ultimately show ?thesis by (auto simp: fragment_ok_def)
qed

end
